theory Spec2Isabelle
  imports Complex_Main "HOL-Library.Word" "HOL-Library.Sublist"
begin

section \<open>Data model (type.go)\<close>

text \<open>
  Keys are Go byte slices, compared as unsigned bytes. Pointers to elements are
  addresses into an explicit store (\<open>heap\<close>); the nil pointer is \<open>None\<close>. A pointer of
  type \<open>*elementNode\<close> points either at the node embedded in the list itself (the
  sentinel, \<open>Head\<close>) or at the node embedded in an element (\<open>Elem a\<close>).

  \<open>float64\<close> is the type parameter \<open>'f\<close>: only its comparison \<open><\<close> is used, and the class
  \<open>ord\<close> assumes nothing about it. \<open>math.Pow\<close> and the constant \<open>1 / math.E\<close> are
  parameters of the constructor. The random source is the sequence of samples
  \<open>float64(Int63()) / (1 << 63)\<close> it is going to deliver. The unused back pointer
  \<open>elementNode.list\<close> and the mutex are left out: the model is of sequential calls.
  \<open>Length\<close> is a Go \<open>int\<close>; it counts allocated elements, so it cannot wrap around, and is
  an unbounded integer here. Keys and values are values: the caller does not write to a
  key slice after passing it to \<open>Set\<close>.
\<close>

type_synonym byte = "8 word"
type_synonym addr = nat

datatype error = IndexOutOfRange | NilDereference | InvalidPointer | MaxLevelPanic

datatype noderef = Head | Elem addr

record elementNode =
  "next" :: "addr option list"

record 'v Element = elementNode +
  key :: "byte list"
  val :: 'v

record ('v, 'f) SkipList = elementNode +
  maxLevel :: int
  Length :: int
  randSource :: "nat \<Rightarrow> 'f"
  probability :: 'f
  probTable :: "'f list"
  prevNodesCache :: "noderef option list"
  heap :: "'v Element list"

text \<open>\<open>bytes.Compare\<close>: lexicographic on unsigned bytes, a proper prefix is smaller.\<close>

fun Compare :: "byte list \<Rightarrow> byte list \<Rightarrow> int" where
  "Compare [] [] = 0"
| "Compare [] (b # bs) = - 1"
| "Compare (a # as) [] = 1"
| "Compare (a # as) (b # bs) =
     (if a < b then - 1 else if b < a then 1 else Compare as bs)"

section \<open>Node accessors (type.go)\<close>

text \<open>Dereferencing an element pointer. Go has no dangling pointers; an address
  outside the store is an error here so that the model is total.\<close>

definition elemAt :: "('v, 'f) SkipList \<Rightarrow> addr \<Rightarrow> error + 'v Element" where
  "elemAt list a =
     (if a < length (heap list) then Inr (heap list ! a) else Inl InvalidPointer)"

definition nodeNext :: "('v, 'f) SkipList \<Rightarrow> noderef \<Rightarrow> error + addr option list" where
  "nodeNext list n =
     (case n of
        Head \<Rightarrow> Inr (next list)
      | Elem a \<Rightarrow> (case elemAt list a of Inl e \<Rightarrow> Inl e | Inr el \<Rightarrow> Inr (next el)))"

text \<open>\<open>n.NextAt(i)\<close> reads \<open>n.next[i]\<close>, which panics when \<open>i\<close> is out of range.\<close>

definition NextAt :: "('v, 'f) SkipList \<Rightarrow> noderef \<Rightarrow> nat \<Rightarrow> error + addr option" where
  "NextAt list n i =
     (case nodeNext list n of
        Inl e \<Rightarrow> Inl e
      | Inr nx \<Rightarrow> if i < length nx then Inr (nx ! i) else Inl IndexOutOfRange)"

definition Next :: "('v, 'f) SkipList \<Rightarrow> noderef \<Rightarrow> error + addr option" where
  "Next list n = NextAt list n 0"

definition Front :: "('v, 'f) SkipList \<Rightarrow> error + addr option" where
  "Front list = Next list Head"

definition Element_Next :: "('v, 'f) SkipList \<Rightarrow> addr \<Rightarrow> error + addr option" where
  "Element_Next list a = Next list (Elem a)"

text \<open>The store \<open>n.next[i] = p\<close> (\<open>atomic.StorePointer(&n.next[i], p)\<close>).\<close>

definition setNext ::
  "('v, 'f) SkipList \<Rightarrow> noderef \<Rightarrow> nat \<Rightarrow> addr option \<Rightarrow> error + ('v, 'f) SkipList" where
  "setNext list n i p =
     (case n of
        Head \<Rightarrow>
          if i < length (next list) then Inr (list\<lparr>next := (next list)[i := p]\<rparr>)
          else Inl IndexOutOfRange
      | Elem a \<Rightarrow>
          (case elemAt list a of
             Inl e \<Rightarrow> Inl e
           | Inr el \<Rightarrow>
               if i < length (next el)
               then Inr (list\<lparr>heap := (heap list)[a := el\<lparr>next := (next el)[i := p]\<rparr>]\<rparr>)
               else Inl IndexOutOfRange))"

section \<open>Search (skiplist.go)\<close>

text \<open>
  The inner loop of \<open>Get\<close> and \<open>getPrevElementNodes\<close>:
  \<^verbatim>\<open>for next != nil && bytes.Compare(key, next.key) > 0 { prev = &next.elementNode; next = next.NextAt(i) }\<close>
  On a cyclic store it does not return; not returning is the value \<open>None\<close>.
\<close>

partial_function (option) scanLevel ::
  "('v, 'f) SkipList \<Rightarrow> byte list \<Rightarrow> nat \<Rightarrow> noderef \<Rightarrow> addr option
     \<Rightarrow> (error + noderef \<times> addr option) option" where
  "scanLevel list k i prev nxt =
     (case nxt of
        None \<Rightarrow> Some (Inr (prev, None))
      | Some a \<Rightarrow>
          (case elemAt list a of
             Inl e \<Rightarrow> Some (Inl e)
           | Inr el \<Rightarrow>
               if Compare k (key el) > 0
               then (case NextAt list (Elem a) i of
                       Inl e \<Rightarrow> Some (Inl e)
                     | Inr n \<Rightarrow> scanLevel list k i (Elem a) n)
               else Some (Inr (prev, nxt))))"

declare scanLevel.simps [code]

text \<open>The test \<open>next != nil && bytes.Compare(next.key, key) <= 0\<close> that ends \<open>Get\<close>
  and follows the search in \<open>Set\<close> and \<open>Remove\<close>: the candidate when it passes, nil
  otherwise.\<close>

definition matchKey ::
  "('v, 'f) SkipList \<Rightarrow> addr option \<Rightarrow> byte list \<Rightarrow> error + addr option" where
  "matchKey list p k =
     (case p of
        None \<Rightarrow> Inr None
      | Some a \<Rightarrow>
          (case elemAt list a of
             Inl e \<Rightarrow> Inl e
           | Inr el \<Rightarrow> Inr (if Compare (key el) k \<le> 0 then Some a else None)))"

text \<open>The level loop of \<open>Get\<close>, \<open>for i := list.maxLevel - 1; i >= 0; i--\<close>: the
  counter of the model is \<open>i + 1\<close>.\<close>

fun Get_levels ::
  "('v, 'f) SkipList \<Rightarrow> byte list \<Rightarrow> nat \<Rightarrow> noderef \<Rightarrow> addr option
     \<Rightarrow> (error + addr option) option" where
  "Get_levels list k 0 prev nxt = Some (Inr nxt)"
| "Get_levels list k (Suc i) prev nxt =
     (case NextAt list prev i of
        Inl e \<Rightarrow> Some (Inl e)
      | Inr n \<Rightarrow>
          (case scanLevel list k i prev n of
             None \<Rightarrow> None
           | Some (Inl e) \<Rightarrow> Some (Inl e)
           | Some (Inr (prev', nxt')) \<Rightarrow> Get_levels list k i prev' nxt'))"

text \<open>\<open>Get\<close> returns the element pointer (or nil) and leaves the list as it is.
  A panic is \<open>Inl\<close>, with the list as it was when the panic was raised.\<close>

definition Get ::
  "('v, 'f) SkipList \<Rightarrow> byte list \<Rightarrow> ((error + addr option) \<times> ('v, 'f) SkipList) option" where
  "Get list k =
     (case Get_levels list k (nat (maxLevel list)) Head None of
        None \<Rightarrow> None
      | Some (Inl e) \<Rightarrow> Some (Inl e, list)
      | Some (Inr nxt) \<Rightarrow>
          (case matchKey list nxt k of
             Inl e \<Rightarrow> Some (Inl e, list)
           | Inr r \<Rightarrow> Some (Inr r, list)))"

text \<open>The level loop of \<open>getPrevElementNodes\<close>; \<open>prevs\<close> is the slice
  \<open>list.prevNodesCache\<close> itself, so \<open>prevs[i] = prev\<close> writes the list's buffer.\<close>

fun getPrev_levels ::
  "byte list \<Rightarrow> nat \<Rightarrow> noderef \<Rightarrow> ('v, 'f) SkipList
     \<Rightarrow> ((error + unit) \<times> ('v, 'f) SkipList) option" where
  "getPrev_levels k 0 prev list = Some (Inr (), list)"
| "getPrev_levels k (Suc i) prev list =
     (case NextAt list prev i of
        Inl e \<Rightarrow> Some (Inl e, list)
      | Inr n \<Rightarrow>
          (case scanLevel list k i prev n of
             None \<Rightarrow> None
           | Some (Inl e) \<Rightarrow> Some (Inl e, list)
           | Some (Inr (prev', nxt')) \<Rightarrow>
               if i < length (prevNodesCache list)
               then getPrev_levels k i prev'
                      (list\<lparr>prevNodesCache := (prevNodesCache list)[i := Some prev']\<rparr>)
               else Some (Inl IndexOutOfRange, list)))"

definition getPrevElementNodes ::
  "('v, 'f) SkipList \<Rightarrow> byte list \<Rightarrow> ((error + unit) \<times> ('v, 'f) SkipList) option" where
  "getPrevElementNodes list k = getPrev_levels k (nat (maxLevel list)) Head list"

text \<open>Reading \<open>prevs[i]\<close> for a method call or a field access on it: the index must be
  in range and the pointer must not be nil.\<close>

definition prevsAt :: "('v, 'f) SkipList \<Rightarrow> nat \<Rightarrow> error + noderef" where
  "prevsAt list i =
     (if i < length (prevNodesCache list)
      then (case prevNodesCache list ! i of None \<Rightarrow> Inl NilDereference | Some n \<Rightarrow> Inr n)
      else Inl IndexOutOfRange)"

section \<open>Level generator (skiplist.go)\<close>

function randLevel_loop :: "('v, 'f::ord) SkipList \<Rightarrow> 'f \<Rightarrow> nat \<Rightarrow> error + nat" where
  "randLevel_loop list r level =
     (if int level < maxLevel list
      then (if level < length (probTable list)
            then (if r < probTable list ! level
                  then randLevel_loop list r (Suc level)
                  else Inr level)
            else Inl IndexOutOfRange)
      else Inr level)"
  by pat_completeness auto
termination
  by (relation "measure (\<lambda>(list, r, level). nat (maxLevel list) - level)") auto

definition randLevel :: "('v, 'f::ord) SkipList \<Rightarrow> (error + nat) \<times> ('v, 'f) SkipList" where
  "randLevel list =
     (let r = randSource list 0;
          list' = list\<lparr>randSource := (\<lambda>n. randSource list (Suc n))\<rparr>
      in (randLevel_loop list' r 1, list'))"

definition probabilityTable :: "('f \<Rightarrow> int \<Rightarrow> 'f) \<Rightarrow> 'f \<Rightarrow> int \<Rightarrow> 'f list" where
  "probabilityTable pow p MaxLevel = map (\<lambda>i. pow p (i - 1)) [1..MaxLevel]"

definition SetProbability ::
  "('f \<Rightarrow> int \<Rightarrow> 'f) \<Rightarrow> ('v, 'f) SkipList \<Rightarrow> 'f \<Rightarrow> ('v, 'f) SkipList" where
  "SetProbability pow list newProbability =
     list\<lparr>probability := newProbability,
          probTable := probabilityTable pow newProbability (maxLevel list)\<rparr>"

section \<open>Mutation (skiplist.go)\<close>

text \<open>The splice loop of \<open>Set\<close>, \<open>for i := range element.next\<close>, with \<open>n\<close> iterations
  left.\<close>

fun Set_splice ::
  "addr \<Rightarrow> nat \<Rightarrow> nat \<Rightarrow> ('v, 'f) SkipList \<Rightarrow> (error + unit) \<times> ('v, 'f) SkipList" where
  "Set_splice element i 0 list = (Inr (), list)"
| "Set_splice element i (Suc n) list =
     (case prevsAt list i of
        Inl e \<Rightarrow> (Inl e, list)
      | Inr p \<Rightarrow>
          (case NextAt list p i of
             Inl e \<Rightarrow> (Inl e, list)
           | Inr q \<Rightarrow>
               (case setNext list (Elem element) i q of
                  Inl e \<Rightarrow> (Inl e, list)
                | Inr list1 \<Rightarrow>
                    (case setNext list1 p i (Some element) of
                       Inl e \<Rightarrow> (Inl e, list1)
                     | Inr list2 \<Rightarrow> Set_splice element (Suc i) n list2))))"

text \<open>\<open>Set\<close>: the search, then either the update in place or the allocation of a new
  element at a fresh address, the splice and the increment of \<open>Length\<close>.\<close>

definition Set ::
  "('v, 'f::ord) SkipList \<Rightarrow> byte list \<Rightarrow> 'v
     \<Rightarrow> ((error + addr) \<times> ('v, 'f) SkipList) option" where
  "Set list0 k v =
     (case getPrevElementNodes list0 k of
        None \<Rightarrow> None
      | Some (Inl e, list) \<Rightarrow> Some (Inl e, list)
      | Some (Inr u, list) \<Rightarrow> Some
          (case prevsAt list 0 of
             Inl e \<Rightarrow> (Inl e, list)
           | Inr p \<Rightarrow>
               (case Next list p of
                  Inl e \<Rightarrow> (Inl e, list)
                | Inr element \<Rightarrow>
                    (case matchKey list element k of
                       Inl e \<Rightarrow> (Inl e, list)
                     | Inr (Some a) \<Rightarrow>
                         (Inr a, list\<lparr>heap := (heap list)[a := (heap list ! a)\<lparr>val := v\<rparr>]\<rparr>)
                     | Inr None \<Rightarrow>
                         (case randLevel list of
                            (Inl e, list1) \<Rightarrow> (Inl e, list1)
                          | (Inr level, list1) \<Rightarrow>
                              (let a = length (heap list1);
                                   list2 = list1\<lparr>heap := heap list1 @
                                     [\<lparr>next = replicate level None, key = k, val = v\<rparr>]\<rparr>
                               in (case Set_splice a 0 level list2 of
                                     (Inl e, list3) \<Rightarrow> (Inl e, list3)
                                   | (Inr u, list3) \<Rightarrow>
                                       (Inr a, list3\<lparr>Length := Length list3 + 1\<rparr>))))))))"

text \<open>The unlink loop of \<open>Remove\<close>, \<open>for k := range element.next\<close>, with \<open>n\<close>
  iterations left.\<close>

fun Remove_unlink ::
  "addr \<Rightarrow> nat \<Rightarrow> nat \<Rightarrow> ('v, 'f) SkipList \<Rightarrow> (error + unit) \<times> ('v, 'f) SkipList" where
  "Remove_unlink element i 0 list = (Inr (), list)"
| "Remove_unlink element i (Suc n) list =
     (case prevsAt list i of
        Inl e \<Rightarrow> (Inl e, list)
      | Inr p \<Rightarrow>
          (case NextAt list (Elem element) i of
             Inl e \<Rightarrow> (Inl e, list)
           | Inr q \<Rightarrow>
               (case setNext list p i q of
                  Inl e \<Rightarrow> (Inl e, list)
                | Inr list1 \<Rightarrow> Remove_unlink element (Suc i) n list1)))"

definition Remove ::
  "('v, 'f) SkipList \<Rightarrow> byte list \<Rightarrow> ((error + addr option) \<times> ('v, 'f) SkipList) option" where
  "Remove list0 k =
     (case getPrevElementNodes list0 k of
        None \<Rightarrow> None
      | Some (Inl e, list) \<Rightarrow> Some (Inl e, list)
      | Some (Inr u, list) \<Rightarrow> Some
          (case prevsAt list 0 of
             Inl e \<Rightarrow> (Inl e, list)
           | Inr p \<Rightarrow>
               (case Next list p of
                  Inl e \<Rightarrow> (Inl e, list)
                | Inr element \<Rightarrow>
                    (case matchKey list element k of
                       Inl e \<Rightarrow> (Inl e, list)
                     | Inr None \<Rightarrow> (Inr None, list)
                     | Inr (Some a) \<Rightarrow>
                         (case Remove_unlink a 0 (length (next (heap list ! a))) list of
                            (Inl e, list1) \<Rightarrow> (Inl e, list1)
                          | (Inr u, list1) \<Rightarrow>
                              (Inr (Some a), list1\<lparr>Length := Length list1 - 1\<rparr>))))))"

section \<open>Construction (skiplist.go)\<close>

definition DefaultMaxLevel :: int where
  "DefaultMaxLevel = 18"

definition NewWithMaxLevel ::
  "('f \<Rightarrow> int \<Rightarrow> 'f) \<Rightarrow> 'f \<Rightarrow> (nat \<Rightarrow> 'f) \<Rightarrow> int \<Rightarrow> error + ('v, 'f) SkipList" where
  "NewWithMaxLevel pow DefaultProbability rs n =
     (if n < 1 \<or> n > 64 then Inl MaxLevelPanic
      else Inr \<lparr>next = replicate (nat DefaultMaxLevel) None,
                maxLevel = n,
                Length = 0,
                randSource = rs,
                probability = DefaultProbability,
                probTable = probabilityTable pow DefaultProbability DefaultMaxLevel,
                prevNodesCache = replicate (nat DefaultMaxLevel) None,
                heap = []\<rparr>)"

definition New ::
  "('f \<Rightarrow> int \<Rightarrow> 'f) \<Rightarrow> 'f \<Rightarrow> (nat \<Rightarrow> 'f) \<Rightarrow> error + ('v, 'f) SkipList" where
  "New pow DefaultProbability rs = NewWithMaxLevel pow DefaultProbability rs DefaultMaxLevel"

section \<open>Iteration and sequences of calls\<close>

text \<open>Walking a chain, as \<open>for c := list.Front(); c != nil; c = c.Next()\<close> does at
  level 0 and \<open>checkSanity\<close> of the tests does at every level.\<close>

partial_function (option) walkLevel ::
  "('v, 'f) SkipList \<Rightarrow> nat \<Rightarrow> addr option \<Rightarrow> (error + addr list) option" where
  "walkLevel list i p =
     (case p of
        None \<Rightarrow> Some (Inr [])
      | Some a \<Rightarrow>
          (case NextAt list (Elem a) i of
             Inl e \<Rightarrow> Some (Inl e)
           | Inr q \<Rightarrow>
               Option.bind (walkLevel list i q)
                 (\<lambda>r. case r of Inl e \<Rightarrow> Some (Inl e) | Inr as \<Rightarrow> Some (Inr (a # as)))))"

declare walkLevel.simps [code]

definition levelChain :: "('v, 'f) SkipList \<Rightarrow> nat \<Rightarrow> (error + addr list) option" where
  "levelChain list i =
     (case NextAt list Head i of Inl e \<Rightarrow> Some (Inl e) | Inr p \<Rightarrow> walkLevel list i p)"

definition elements :: "('v, 'f) SkipList \<Rightarrow> (error + addr list) option" where
  "elements list = (case Front list of Inl e \<Rightarrow> Some (Inl e) | Inr p \<Rightarrow> walkLevel list 0 p)"

datatype ('v, 'f) call =
  CallSet "byte list" 'v | CallGet "byte list" | CallRemove "byte list" | CallSetProbability 'f

text \<open>The list after one call, whether the call returned or panicked (a panic can be
  recovered, and the list is then as the panic left it); \<open>None\<close> when the call does not
  return.\<close>

fun after ::
  "('f \<Rightarrow> int \<Rightarrow> 'f) \<Rightarrow> ('v, 'f::ord) SkipList \<Rightarrow> ('v, 'f) call \<Rightarrow> ('v, 'f) SkipList option" where
  "after pow list (CallSet k v) = map_option snd (Set list k v)"
| "after pow list (CallGet k) = map_option snd (Get list k)"
| "after pow list (CallRemove k) = map_option snd (Remove list k)"
| "after pow list (CallSetProbability p) = Some (SetProbability pow list p)"

fun run ::
  "('f \<Rightarrow> int \<Rightarrow> 'f) \<Rightarrow> ('v, 'f::ord) SkipList \<Rightarrow> ('v, 'f) call list
     \<Rightarrow> ('v, 'f) SkipList option" where
  "run pow list [] = Some list"
| "run pow list (c # cs) =
     (case after pow list c of None \<Rightarrow> None | Some list' \<Rightarrow> run pow list' cs)"

section \<open>Vocabulary of the specification\<close>

text \<open>The key and the height (the length of the forward array) of the element at an
  address.\<close>

definition keyOf :: "('v, 'f) SkipList \<Rightarrow> addr \<Rightarrow> byte list" where
  "keyOf list a = key (heap list ! a)"

definition height :: "('v, 'f) SkipList \<Rightarrow> addr \<Rightarrow> nat" where
  "height list a = length (next (heap list ! a))"

abbreviation klt :: "('v, 'f) SkipList \<Rightarrow> addr \<Rightarrow> addr \<Rightarrow> bool" where
  "klt list a b \<equiv> Compare (keyOf list a) (keyOf list b) < 0"

text \<open>\<open>links list i n xs\<close>: following the level-\<open>i\<close> pointers from node \<open>n\<close> visits
  the elements \<open>xs\<close> in this order; \<open>lastRef n xs\<close> is the node reached. \<open>chainAt list i xs\<close>:
  the level-\<open>i\<close> chain of the sentinel is \<open>xs\<close> and ends in nil.\<close>

fun lastRef :: "noderef \<Rightarrow> addr list \<Rightarrow> noderef" where
  "lastRef n [] = n"
| "lastRef n (a # as) = lastRef (Elem a) as"

fun links :: "('v, 'f) SkipList \<Rightarrow> nat \<Rightarrow> noderef \<Rightarrow> addr list \<Rightarrow> bool" where
  "links list i n [] = True"
| "links list i n (a # as) = (NextAt list n i = Inr (Some a) \<and> links list i (Elem a) as)"

definition chainAt :: "('v, 'f) SkipList \<Rightarrow> nat \<Rightarrow> addr list \<Rightarrow> bool" where
  "chainAt list i xs \<longleftrightarrow> links list i Head xs \<and> NextAt list (lastRef Head xs) i = Inr None"

text \<open>A list is usable when the sentinel has a slot for each of its \<open>maxLevel\<close> levels.
  \<open>NewWithMaxLevel\<close> allocates \<open>DefaultMaxLevel\<close> slots whatever \<open>maxLevel\<close> is, so the lists
  it returns are usable exactly for \<open>maxLevel \<le> 18\<close>.\<close>

definition usable :: "('v, 'f) SkipList \<Rightarrow> bool" where
  "usable list \<longleftrightarrow> maxLevel list \<le> int (length (next list))"

text \<open>The invariant, for the level-0 chain \<open>c\<close>: the elements of \<open>c\<close> are allocated, with
  heights between 1 and \<open>maxLevel\<close> and strictly ascending keys; at every level the sentinel
  has, the chain consists of the elements of \<open>c\<close> that are higher than the level, in the
  order of \<open>c\<close>; \<open>Length\<close> counts \<open>c\<close>. A list that is not usable is empty.\<close>

definition listInv :: "('v, 'f) SkipList \<Rightarrow> addr list \<Rightarrow> bool" where
  "listInv list c \<longleftrightarrow>
     1 \<le> maxLevel list \<and>
     length (prevNodesCache list) = length (next list) \<and>
     (usable list \<longrightarrow> nat (maxLevel list) \<le> length (probTable list)) \<and>
     (\<not> usable list \<longrightarrow> c = []) \<and>
     (\<forall>a\<in>set c. a < length (heap list) \<and> 1 \<le> height list a \<and>
        int (height list a) \<le> maxLevel list) \<and>
     sorted_wrt (\<lambda>a b. Compare (keyOf list a) (keyOf list b) < 0) c \<and>
     (\<forall>i<length (next list). chainAt list i (filter (\<lambda>a. i < height list a) c)) \<and>
     Length list = int (length c) \<and>
     next list \<noteq> []"

text \<open>For a search key \<open>k\<close> the chain splits into the elements whose key is below \<open>k\<close>
  (\<open>L\<close>) and the rest. \<open>predAt list L j\<close> is the predecessor the search records at level
  \<open>j\<close>, and \<open>filled list L\<close> the scratch buffer it leaves.\<close>

definition below :: "('v, 'f) SkipList \<Rightarrow> byte list \<Rightarrow> addr \<Rightarrow> bool" where
  "below list k a \<longleftrightarrow> 0 < Compare k (keyOf list a)"

definition predAt :: "('v, 'f) SkipList \<Rightarrow> addr list \<Rightarrow> nat \<Rightarrow> noderef" where
  "predAt list L j = lastRef Head (filter (\<lambda>a. j < height list a) L)"

definition headOpt :: "'a list \<Rightarrow> 'a option" where
  "headOpt xs = (case xs of [] \<Rightarrow> None | x # _ \<Rightarrow> Some x)"

definition filled ::
  "('v, 'f) SkipList \<Rightarrow> addr list \<Rightarrow> noderef option list" where
  "filled list L = map (\<lambda>t. Some (predAt list L t)) [0..<nat (maxLevel list)] @
     drop (nat (maxLevel list)) (prevNodesCache list)"

text \<open>Two lists that differ in forward pointers only.\<close>

definition sameShape :: "('v, 'f) SkipList \<Rightarrow> ('v, 'f) SkipList \<Rightarrow> bool" where
  "sameShape list list' \<longleftrightarrow>
     maxLevel list' = maxLevel list \<and> Length list' = Length list \<and>
     randSource list' = randSource list \<and> probability list' = probability list \<and>
     probTable list' = probTable list \<and> prevNodesCache list' = prevNodesCache list \<and>
     length (next list') = length (next list) \<and> length (heap list') = length (heap list) \<and>
     (\<forall>a. keyOf list' a = keyOf list a \<and> height list' a = height list a \<and>
          val (heap list' ! a) = val (heap list ! a))"

text \<open>A concrete environment for examples: \<open>float64\<close> read as the rationals, a source
  that alternates between the samples 1/10 and 1/2, and the list \<open>NewWithMaxLevel(4)\<close>
  returns in it.\<close>

definition exPow :: "rat \<Rightarrow> int \<Rightarrow> rat" where
  "exPow p n = p ^ nat n"

definition exRand :: "nat \<Rightarrow> rat" where
  "exRand n = (if even n then 1 / 10 else 1 / 2)"

definition exList :: "(nat, rat) SkipList" where
  "exList = \<lparr>next = replicate 18 None, maxLevel = 4, Length = 0, randSource = exRand,
     probability = 1 / 3, probTable = probabilityTable exPow (1 / 3) 18,
     prevNodesCache = replicate 18 None, heap = []\<rparr>"

definition exCalls :: "(nat, rat) call list" where
  "exCalls = [CallSet [3] 1, CallSet [1] 2]"

section \<open>Lemmas\<close>

subsection \<open>The key order\<close>

text \<open>\<open>bytes.Compare\<close> is a strict linear order: its sign flips with its arguments, it is 0
  on equal keys only, and it is transitive.\<close>

lemma Compare_range: "Compare a b = - 1 \<or> Compare a b = 0 \<or> Compare a b = 1"
  by (induction a b rule: Compare.induct) auto

lemma Compare_same [simp]: "Compare a a = 0"
  by (induction a) auto

lemma Compare_eq_0: "Compare a b = 0 \<longleftrightarrow> a = b"
  by (induction a b rule: Compare.induct) auto

lemma Compare_flip: "Compare b a = - Compare a b"
  by (induction a b rule: Compare.induct) auto

lemma Compare_trans:
  "Compare a b < 0 \<Longrightarrow> Compare b c < 0 \<Longrightarrow> Compare a c < 0"
proof (induction a b arbitrary: c rule: Compare.induct)
  case 1
  then show ?case by simp
next
  case (2 b bs)
  then show ?case by (cases c) auto
next
  case (3 a as)
  then show ?case by simp
next
  case (4 a as b bs)
  show ?case
  proof (cases c)
    case Nil
    with 4 show ?thesis by simp
  next
    case (Cons x xs)
    with 4 show ?thesis
      by (auto split: if_splits)
  qed
qed

subsection \<open>Chains and the inner search loop\<close>

text \<open>The inner loop, started on a stretch of a chain whose keys are all below the search
  key and that ends in nil or in front of a key that is not, returns with the last element
  of the stretch and the pointer that follows it.\<close>

lemma lastRef_append [simp]: "lastRef n (xs @ ys) = lastRef (lastRef n xs) ys"
  by (induction xs arbitrary: n) auto

lemma lastRef_snoc: "lastRef n (xs @ [x]) = Elem x"
  by simp

lemma lastRef_nonempty: "xs \<noteq> [] \<Longrightarrow> lastRef n xs = Elem (last xs)"
  by (induction xs arbitrary: n) auto

lemma links_append [simp]:
  "links list i n (xs @ ys) \<longleftrightarrow> links list i n xs \<and> links list i (lastRef n xs) ys"
  by (induction xs arbitrary: n) auto

lemma scanLevel_links:
  "links list i prev B \<Longrightarrow>
   \<forall>b\<in>set B. b < length (heap list) \<and> 0 < Compare k (keyOf list b) \<Longrightarrow>
   NextAt list prev i = Inr nxt \<Longrightarrow>
   NextAt list (lastRef prev B) i = Inr q \<Longrightarrow>
   (case q of None \<Rightarrow> True
    | Some a \<Rightarrow> a < length (heap list) \<and> \<not> 0 < Compare k (keyOf list a)) \<Longrightarrow>
   scanLevel list k i prev nxt = Some (Inr (lastRef prev B, q))"
proof (induction B arbitrary: prev nxt)
  case Nil
  then show ?case
    by (subst scanLevel.simps) (auto simp: elemAt_def keyOf_def split: option.splits)
next
  case (Cons b B)
  from Cons.prems have nxt: "nxt = Some b" by simp
  obtain n where n: "NextAt list (Elem b) i = Inr n"
    using Cons.prems by (cases B) auto
  have "scanLevel list k i (Elem b) n = Some (Inr (lastRef (Elem b) B, q))"
    using Cons.prems n by (intro Cons.IH) auto
  then show ?case
    using Cons.prems n nxt
    by (subst scanLevel.simps) (simp add: elemAt_def keyOf_def)
qed

lemma split_filter:
  "(\<And>x. P x \<Longrightarrow> Q x) \<Longrightarrow>
   \<exists>A B. filter Q xs = A @ B \<and> lastRef n A = lastRef n (filter P xs) \<and> set B \<subseteq> set xs"
proof (induction xs rule: rev_induct)
  case Nil
  then show ?case by simp
next
  case (snoc x xs)
  then obtain A B where AB: "filter Q xs = A @ B" "lastRef n A = lastRef n (filter P xs)"
    "set B \<subseteq> set xs" by blast
  show ?case
  proof (cases "P x")
    case True
    then have "Q x" by (rule snoc.prems)
    with True AB show ?thesis
      by (intro exI[of _ "filter Q xs @ [x]"] exI[of _ "[]"]) simp
  next
    case False
    show ?thesis
    proof (cases "Q x")
      case True
      with False AB show ?thesis
        by (intro exI[of _ A] exI[of _ "B @ [x]"]) auto
    next
      case f: False
      with False AB show ?thesis
        by (intro exI[of _ A] exI[of _ B]) auto
    qed
  qed
qed

subsection \<open>The predecessor search on a well-formed list\<close>

text \<open>On a usable list that satisfies the invariant the level loop enters level \<open>j\<close> at the
  predecessor of level \<open>j + 1\<close>, which is on the chain of level \<open>j\<close> as well, and leaves it
  at the predecessor of level \<open>j\<close>; the buffer ends up holding the predecessor of every
  level below \<open>maxLevel\<close>.\<close>

lemma headOpt_simps [simp]: "headOpt [] = None" "headOpt (x # xs) = Some x"
  by (simp_all add: headOpt_def)

lemma links_head: "links list i n xs \<Longrightarrow> xs \<noteq> [] \<Longrightarrow> NextAt list n i = Inr (headOpt xs)"
  by (cases xs) auto

lemma level_next:
  assumes "chainAt list j (filter (\<lambda>a. j < height list a) (L @ H))"
  shows "NextAt list (predAt list L j) j = Inr (headOpt (filter (\<lambda>a. j < height list a) H))"
proof (cases "filter (\<lambda>a. j < height list a) H = []")
  case True
  with assms show ?thesis by (simp add: chainAt_def predAt_def)
next
  case False
  with assms show ?thesis by (simp add: chainAt_def predAt_def links_head)
qed

lemma level_step:
  assumes "chainAt list j (filter (\<lambda>a. j < height list a) (L @ H))"
  shows "\<exists>B. links list j (predAt list L (Suc j)) B \<and>
             lastRef (predAt list L (Suc j)) B = predAt list L j \<and> set B \<subseteq> set L"
proof -
  have "\<exists>A B. filter (\<lambda>a. j < height list a) L = A @ B \<and>
          lastRef Head A = lastRef Head (filter (\<lambda>a. Suc j < height list a) L) \<and> set B \<subseteq> set L"
    by (rule split_filter) simp
  then obtain A B where AB: "filter (\<lambda>a. j < height list a) L = A @ B"
    "lastRef Head A = predAt list L (Suc j)" "set B \<subseteq> set L"
    by (auto simp: predAt_def)
  from assms AB have "links list j (predAt list L (Suc j)) B"
    by (simp add: chainAt_def)
  moreover have "lastRef (predAt list L (Suc j)) B = predAt list L j"
    using AB by (simp add: predAt_def)
  ultimately show ?thesis using AB(3) by blast
qed

lemma pred_top: "\<forall>a\<in>set L. height list a \<le> m \<Longrightarrow> predAt list L m = Head"
  by (simp add: predAt_def filter_empty_conv not_less)

lemma NextAt_cache [simp]: "NextAt (list\<lparr>prevNodesCache := pc\<rparr>) = NextAt list"
  by (rule ext)+ (simp add: NextAt_def nodeNext_def elemAt_def split: noderef.splits)

lemma keyOf_cache [simp]: "keyOf (list\<lparr>prevNodesCache := pc\<rparr>) = keyOf list"
  by (rule ext) (simp add: keyOf_def)

lemma height_cache [simp]: "height (list\<lparr>prevNodesCache := pc\<rparr>) = height list"
  by (rule ext) (simp add: height_def)

lemma links_cong:
  "(\<And>r. NextAt list' r i = NextAt list r i) \<Longrightarrow> links list' i n xs = links list i n xs"
  by (induction xs arbitrary: n) auto

lemma chainAt_cong:
  "(\<And>r. NextAt list' r i = NextAt list r i) \<Longrightarrow> chainAt list' i xs = chainAt list i xs"
  unfolding chainAt_def by (simp add: links_cong[of list' i list])

lemma chainAt_cache [simp]: "chainAt (list\<lparr>prevNodesCache := pc\<rparr>) = chainAt list"
  by (rule ext)+ (rule chainAt_cong, simp)

lemma pred_cache [simp]: "predAt (list\<lparr>prevNodesCache := pc\<rparr>) = predAt list"
  by (rule ext)+ (simp add: predAt_def)

lemma usable_cache [simp]: "usable (list\<lparr>prevNodesCache := pc\<rparr>) = usable list"
  by (simp add: usable_def)

lemma inv_cache:
  "listInv list c \<Longrightarrow> length pc = length (next list) \<Longrightarrow> listInv (list\<lparr>prevNodesCache := pc\<rparr>) c"
  by (simp add: listInv_def)

lemma below_cache [simp]: "below (list\<lparr>prevNodesCache := pc\<rparr>) = below list"
  by (rule ext)+ (simp add: below_def)

lemma getPrev_levels_inv:
  assumes "listInv list (L @ H)" "usable list" "\<forall>a\<in>set L. below list k a"
    "\<forall>a\<in>set H. \<not> below list k a" "j \<le> nat (maxLevel list)"
  shows "getPrev_levels k j (predAt list L j) list =
    Some (Inr (), list\<lparr>prevNodesCache :=
      map (\<lambda>t. Some (predAt list L t)) [0..<j] @ drop j (prevNodesCache list)\<rparr>)"
  using assms
proof (induction j arbitrary: list)
  case 0
  then show ?case by simp
next
  case (Suc j)
  let ?hi = "\<lambda>a. j < height list a"
  have jn: "j < length (next list)" and jc: "j < length (prevNodesCache list)"
    using Suc.prems by (auto simp: listInv_def usable_def)
  have ch: "chainAt list j (filter ?hi (L @ H))"
    using Suc.prems(1) jn by (simp add: listInv_def)
  obtain B where B: "links list j (predAt list L (Suc j)) B"
    "lastRef (predAt list L (Suc j)) B = predAt list L j" "set B \<subseteq> set L"
    using level_step[OF ch] by blast
  let ?q = "headOpt (filter ?hi H)"
  have q: "NextAt list (predAt list L j) j = Inr ?q" by (rule level_next[OF ch])
  obtain nxt where nxt: "NextAt list (predAt list L (Suc j)) j = Inr nxt"
  proof (cases B)
    case Nil
    with B q that show ?thesis by simp
  next
    case (Cons b B')
    with B that show ?thesis by simp
  qed
  have valid: "\<forall>a\<in>set (L @ H). a < length (heap list)"
    using Suc.prems(1) by (simp add: listInv_def)
  have Bok: "\<forall>b\<in>set B. b < length (heap list) \<and> 0 < Compare k (keyOf list b)"
    using B(3) valid Suc.prems(3) by (auto simp: below_def)
  have qok: "case ?q of None \<Rightarrow> True
    | Some a \<Rightarrow> a < length (heap list) \<and> \<not> 0 < Compare k (keyOf list a)"
  proof (cases "filter ?hi H")
    case Nil
    then show ?thesis by simp
  next
    case (Cons a as)
    then have "a \<in> set H" by (metis filter_is_subset list.set_intros(1) subsetD)
    with valid Suc.prems(4) Cons show ?thesis by (simp add: below_def)
  qed
  have scan: "scanLevel list k j (predAt list L (Suc j)) nxt = Some (Inr (predAt list L j, ?q))"
    using scanLevel_links[OF B(1) Bok nxt _ qok] B(2) q by simp
  let ?list1 = "list\<lparr>prevNodesCache := (prevNodesCache list)[j := Some (predAt list L j)]\<rparr>"
  have wf1: "listInv ?list1 (L @ H)"
    using Suc.prems(1) by (intro inv_cache) (simp_all add: listInv_def)
  have ih: "getPrev_levels k j (predAt ?list1 L j) ?list1 =
    Some (Inr (), ?list1\<lparr>prevNodesCache :=
      map (\<lambda>t. Some (predAt ?list1 L t)) [0..<j] @ drop j (prevNodesCache ?list1)\<rparr>)"
    using Suc.prems wf1 by (intro Suc.IH) simp_all
  have dr: "drop j ((prevNodesCache list)[j := Some (predAt list L j)]) =
    Some (predAt list L j) # drop (Suc j) (prevNodesCache list)"
    using jc by (simp add: drop_update_cancel Cons_nth_drop_Suc[symmetric] upd_conv_take_nth_drop)
  have "getPrev_levels k (Suc j) (predAt list L (Suc j)) list =
      getPrev_levels k j (predAt list L j) ?list1"
    using nxt scan jc by simp
  also have "\<dots> = Some (Inr (), list\<lparr>prevNodesCache :=
      map (\<lambda>t. Some (predAt list L t)) [0..<j] @ Some (predAt list L j) #
        drop (Suc j) (prevNodesCache list)\<rparr>)"
    using ih by (simp add: dr)
  finally show ?case by simp
qed

subsection \<open>Stores and the splice loops\<close>

text \<open>A store changes one slot of one node. The two loops are described by the forward
  pointer of every node at every level after them, in terms of the pointers before them.\<close>

lemma sameShape_refl [simp]: "sameShape list list"
  by (simp add: sameShape_def)

lemma sameShape_trans: "sameShape l1 l2 \<Longrightarrow> sameShape l2 l3 \<Longrightarrow> sameShape l1 l3"
  by (simp add: sameShape_def)

lemma sameShape_prevsAt: "sameShape list list' \<Longrightarrow> prevsAt list' j = prevsAt list j"
  by (simp add: sameShape_def prevsAt_def)

lemma setNext_ok:
  assumes "NextAt list n i = Inr x"
  shows "\<exists>list'. setNext list n i p = Inr list' \<and> sameShape list list' \<and>
    (\<forall>r j. NextAt list' r j = (if r = n \<and> j = i then Inr p else NextAt list r j))"
proof (cases n)
  case Head
  with assms have i: "i < length (next list)"
    by (simp add: NextAt_def nodeNext_def split: if_splits)
  let ?l = "list\<lparr>next := (next list)[i := p]\<rparr>"
  have "setNext list n i p = Inr ?l" using Head i by (simp add: setNext_def)
  moreover have "sameShape list ?l" by (simp add: sameShape_def keyOf_def height_def)
  moreover have "\<forall>r j. NextAt ?l r j = (if r = n \<and> j = i then Inr p else NextAt list r j)"
    using Head i
    by (auto simp: NextAt_def nodeNext_def elemAt_def nth_list_update split: noderef.splits)
  ultimately show ?thesis by blast
next
  case (Elem a)
  with assms have a: "a < length (heap list)" and i: "i < length (next (heap list ! a))"
    by (auto simp: NextAt_def nodeNext_def elemAt_def split: if_splits)
  let ?e = "(heap list ! a)\<lparr>next := (next (heap list ! a))[i := p]\<rparr>"
  let ?l = "list\<lparr>heap := (heap list)[a := ?e]\<rparr>"
  have "setNext list n i p = Inr ?l" using Elem a i by (simp add: setNext_def elemAt_def)
  moreover have "sameShape list ?l"
    using a by (auto simp: sameShape_def keyOf_def height_def nth_list_update)
  moreover have "\<forall>r j. NextAt ?l r j = (if r = n \<and> j = i then Inr p else NextAt list r j)"
    using Elem a i
    by (auto simp: NextAt_def nodeNext_def elemAt_def nth_list_update split: noderef.splits)
  ultimately show ?thesis by blast
qed

lemma Set_splice_ok:
  assumes "\<forall>j. i \<le> j \<and> j < i + n \<longrightarrow>
      prevsAt list j = Inr (p j) \<and> NextAt list (p j) j = Inr (q j) \<and> p j \<noteq> Elem a \<and>
      (\<exists>x. NextAt list (Elem a) j = Inr x)"
  shows "\<exists>list'. Set_splice a i n list = (Inr (), list') \<and> sameShape list list' \<and>
    (\<forall>r j. NextAt list' r j =
       (if i \<le> j \<and> j < i + n
        then (if r = p j then Inr (Some a) else if r = Elem a then Inr (q j) else NextAt list r j)
        else NextAt list r j))"
  using assms
proof (induction n arbitrary: i list)
  case 0
  then show ?case by auto
next
  case (Suc n)
  from Suc.prems have pi: "prevsAt list i = Inr (p i)" "NextAt list (p i) i = Inr (q i)"
    "p i \<noteq> Elem a" and ai: "\<exists>x. NextAt list (Elem a) i = Inr x"
    by simp_all
  from ai obtain x where x: "NextAt list (Elem a) i = Inr x" by blast
  obtain l1 where l1: "setNext list (Elem a) i (q i) = Inr l1" "sameShape list l1"
    "\<forall>r j. NextAt l1 r j = (if r = Elem a \<and> j = i then Inr (q i) else NextAt list r j)"
    using setNext_ok[OF x, of "q i"] by blast
  have "NextAt l1 (p i) i = Inr (q i)" using l1(3) pi by simp
  then obtain l2 where l2: "setNext l1 (p i) i (Some a) = Inr l2" "sameShape l1 l2"
    "\<forall>r j. NextAt l2 r j = (if r = p i \<and> j = i then Inr (Some a) else NextAt l1 r j)"
    using setNext_ok[of l1 "p i" i "q i" "Some a"] by blast
  have s2: "sameShape list l2" using l1(2) l2(2) by (rule sameShape_trans)
  have pre: "\<forall>j. Suc i \<le> j \<and> j < Suc i + n \<longrightarrow>
      prevsAt l2 j = Inr (p j) \<and> NextAt l2 (p j) j = Inr (q j) \<and> p j \<noteq> Elem a \<and>
      (\<exists>x. NextAt l2 (Elem a) j = Inr x)"
    using Suc.prems l1(3) l2(3) sameShape_prevsAt[OF s2] by auto
  obtain l3 where l3: "Set_splice a (Suc i) n l2 = (Inr (), l3)" "sameShape l2 l3"
    "\<forall>r j. NextAt l3 r j =
       (if Suc i \<le> j \<and> j < Suc i + n
        then (if r = p j then Inr (Some a) else if r = Elem a then Inr (q j) else NextAt l2 r j)
        else NextAt l2 r j)"
    using Suc.IH[OF pre] by blast
  have "Set_splice a i (Suc n) list = (Inr (), l3)"
    using pi l1(1) l2(1) l3(1) by simp
  moreover have "sameShape list l3" using s2 l3(2) by (rule sameShape_trans)
  moreover have "\<forall>r j. NextAt l3 r j =
       (if i \<le> j \<and> j < i + Suc n
        then (if r = p j then Inr (Some a) else if r = Elem a then Inr (q j) else NextAt list r j)
        else NextAt list r j)"
  proof (intro allI)
    fix r j
    consider "j = i" | "Suc i \<le> j" "j < Suc i + n" | "j < i" | "Suc i + n \<le> j"
      by linarith
    then show "NextAt l3 r j =
       (if i \<le> j \<and> j < i + Suc n
        then (if r = p j then Inr (Some a) else if r = Elem a then Inr (q j) else NextAt list r j)
        else NextAt list r j)"
    proof cases
      case 1
      then show ?thesis using l3(3) l2(3) l1(3) pi(3) by simp
    next
      case 2
      then show ?thesis using l3(3) l2(3) l1(3) by simp
    next
      case 3
      then show ?thesis using l3(3) l2(3) l1(3) by simp
    next
      case 4
      then show ?thesis using l3(3) l2(3) l1(3) by simp
    qed
  qed
  ultimately show ?case by blast
qed

lemma Remove_unlink_ok:
  assumes "\<forall>j. i \<le> j \<and> j < i + n \<longrightarrow>
      prevsAt list j = Inr (p j) \<and> NextAt list (Elem a) j = Inr (q j) \<and> p j \<noteq> Elem a \<and>
      (\<exists>x. NextAt list (p j) j = Inr x)"
  shows "\<exists>list'. Remove_unlink a i n list = (Inr (), list') \<and> sameShape list list' \<and>
    (\<forall>r j. NextAt list' r j =
       (if i \<le> j \<and> j < i + n \<and> r = p j then Inr (q j) else NextAt list r j))"
  using assms
proof (induction n arbitrary: i list)
  case 0
  then show ?case by auto
next
  case (Suc n)
  from Suc.prems have pi: "prevsAt list i = Inr (p i)" "NextAt list (Elem a) i = Inr (q i)"
    "p i \<noteq> Elem a" and ai: "\<exists>x. NextAt list (p i) i = Inr x"
    by simp_all
  from ai obtain x where x: "NextAt list (p i) i = Inr x" by blast
  obtain l1 where l1: "setNext list (p i) i (q i) = Inr l1" "sameShape list l1"
    "\<forall>r j. NextAt l1 r j = (if r = p i \<and> j = i then Inr (q i) else NextAt list r j)"
    using setNext_ok[OF x, of "q i"] by blast
  have pre: "\<forall>j. Suc i \<le> j \<and> j < Suc i + n \<longrightarrow>
      prevsAt l1 j = Inr (p j) \<and> NextAt l1 (Elem a) j = Inr (q j) \<and> p j \<noteq> Elem a \<and>
      (\<exists>x. NextAt l1 (p j) j = Inr x)"
    using Suc.prems l1(3) sameShape_prevsAt[OF l1(2)] by auto
  obtain l3 where l3: "Remove_unlink a (Suc i) n l1 = (Inr (), l3)" "sameShape l1 l3"
    "\<forall>r j. NextAt l3 r j =
       (if Suc i \<le> j \<and> j < Suc i + n \<and> r = p j then Inr (q j) else NextAt l1 r j)"
    using Suc.IH[OF pre] by blast
  have "Remove_unlink a i (Suc n) list = (Inr (), l3)"
    using pi l1(1) l3(1) by simp
  moreover have "sameShape list l3" using l1(2) l3(2) by (rule sameShape_trans)
  moreover have "\<forall>r j. NextAt l3 r j =
       (if i \<le> j \<and> j < i + Suc n \<and> r = p j then Inr (q j) else NextAt list r j)"
  proof (intro allI)
    fix r j
    consider "j = i" | "Suc i \<le> j" "j < Suc i + n" | "j < i" | "Suc i + n \<le> j"
      by linarith
    then show "NextAt l3 r j =
       (if i \<le> j \<and> j < i + Suc n \<and> r = p j then Inr (q j) else NextAt list r j)"
    proof cases
      case 1
      then show ?thesis using l3(3) l1(3) by simp
    next
      case 2
      then show ?thesis using l3(3) l1(3) by simp
    next
      case 3
      then show ?thesis using l3(3) l1(3) by simp
    next
      case 4
      then show ?thesis using l3(3) l1(3) by simp
    qed
  qed
  ultimately show ?case by blast
qed

subsection \<open>Inserting into and removing from one chain\<close>

text \<open>What the pointer changes of one level do to the chain of that level.\<close>

lemma lastRef_last: "lastRef n xs = last (n # map Elem xs)"
  by (induction xs arbitrary: n) auto

lemma lastRef_mem: "lastRef n xs = n \<or> lastRef n xs \<in> Elem ` set xs"
  by (induction xs arbitrary: n) auto

lemma links_frame:
  "links list i n xs \<Longrightarrow>
   \<forall>r\<in>set (butlast (n # map Elem xs)). NextAt list' r i = NextAt list r i \<Longrightarrow>
   links list' i n xs"
  by (induction xs arbitrary: n) auto

lemma source_mem:
  "r \<in> set (butlast (n # map Elem xs)) \<Longrightarrow> r = n \<or> r \<in> Elem ` set xs"
  by (drule in_set_butlastD) auto

lemma butlast_not_last:
  "distinct xs \<Longrightarrow> r \<in> set (butlast xs) \<Longrightarrow> r \<noteq> last xs"
proof (cases "xs = []")
  case True
  then show "r \<in> set (butlast xs) \<Longrightarrow> r \<noteq> last xs" by simp
next
  case False
  assume d: "distinct xs" and r: "r \<in> set (butlast xs)"
  from False have "xs = butlast xs @ [last xs]" by simp
  with d have "distinct (butlast xs @ [last xs])" by simp
  with r show "r \<noteq> last xs" by auto
qed

lemma source_not_lastRef:
  assumes "distinct xs" "n \<notin> Elem ` set xs" "r \<in> set (butlast (n # map Elem xs))"
  shows "r \<noteq> lastRef n xs"
proof -
  have "distinct (n # map Elem xs)"
    using assms(1,2) by (simp add: distinct_map inj_on_def)
  from butlast_not_last[OF this assms(3)] show ?thesis by (simp add: lastRef_last)
qed

lemma chain_same:
  assumes "chainAt list i xs"
    "\<forall>r\<in>set (Head # map Elem xs). NextAt list' r i = NextAt list r i"
  shows "chainAt list' i xs"
proof -
  have "links list i Head xs" using assms by (simp add: chainAt_def)
  then have "links list' i Head xs"
  proof (rule links_frame, intro ballI)
    fix r assume "r \<in> set (butlast (Head # map Elem xs))"
    then have "r = Head \<or> r \<in> Elem ` set xs" by (rule source_mem)
    with assms(2) show "NextAt list' r i = NextAt list r i" by auto
  qed
  moreover have "lastRef Head xs \<in> set (Head # map Elem xs)"
    using lastRef_mem[of Head xs] by auto
  then have "NextAt list' (lastRef Head xs) i = NextAt list (lastRef Head xs) i"
    using assms(2) by blast
  ultimately show ?thesis using assms(1) by (simp add: chainAt_def)
qed

lemma chain_insert:
  assumes ch: "chainAt list i (A @ B)" and d: "distinct (A @ B)" and a: "a \<notin> set (A @ B)"
    and new: "NextAt list' (lastRef Head A) i = Inr (Some a)"
      "NextAt list' (Elem a) i = NextAt list (lastRef Head A) i"
    and old: "\<forall>r. r \<noteq> lastRef Head A \<and> r \<noteq> Elem a \<longrightarrow> NextAt list' r i = NextAt list r i"
  shows "chainAt list' i (A @ a # B)"
proof -
  from ch have lA: "links list i Head A" and lB: "links list i (lastRef Head A) B"
    and en: "NextAt list (lastRef Head (A @ B)) i = Inr None"
    by (simp_all add: chainAt_def)
  have pA: "lastRef Head A = Head \<or> lastRef Head A \<in> Elem ` set A"
    by (rule lastRef_mem)
  have 1: "links list' i Head A"
  proof (rule links_frame[OF lA], intro ballI)
    fix r assume r: "r \<in> set (butlast (Head # map Elem A))"
    have "r \<noteq> lastRef Head A"
      using d r by (intro source_not_lastRef[of A]) auto
    moreover have "r \<noteq> Elem a" using source_mem[OF r] a by auto
    ultimately show "NextAt list' r i = NextAt list r i" using old by simp
  qed
  have 2: "links list' i (Elem a) B \<and> NextAt list' (lastRef (Elem a) B) i = Inr None"
  proof (cases B)
    case Nil
    with en new show ?thesis by simp
  next
    case (Cons b B')
    have nb: "\<forall>r\<in>Elem ` set B. r \<noteq> lastRef Head A \<and> r \<noteq> Elem a"
      using pA d a by auto
    have "links list i (Elem b) B'" using lB Cons by simp
    then have "links list' i (Elem b) B'"
    proof (rule links_frame, intro ballI)
      fix r assume "r \<in> set (butlast (Elem b # map Elem B'))"
      then have "r = Elem b \<or> r \<in> Elem ` set B'" by (rule source_mem)
      then have "r \<in> Elem ` set B" using Cons by auto
      with nb old show "NextAt list' r i = NextAt list r i" by blast
    qed
    moreover have "NextAt list' (Elem a) i = Inr (Some b)"
      using new lB Cons by simp
    moreover have "lastRef (Elem a) B \<in> Elem ` set B"
      using Cons lastRef_mem[of "Elem b" B'] by auto
    then have "NextAt list' (lastRef (Elem a) B) i = NextAt list (lastRef (Elem a) B) i"
      using nb old by blast
    then have "NextAt list' (lastRef (Elem a) B) i = Inr None"
      using en Cons by simp
    ultimately show ?thesis using Cons by simp
  qed
  from 1 2 new show ?thesis by (simp add: chainAt_def)
qed

lemma chain_remove:
  assumes ch: "chainAt list i (A @ a # B)" and d: "distinct (A @ a # B)"
    and new: "NextAt list' (lastRef Head A) i = NextAt list (Elem a) i"
    and old: "\<forall>r. r \<noteq> lastRef Head A \<longrightarrow> NextAt list' r i = NextAt list r i"
  shows "chainAt list' i (A @ B)"
proof -
  from ch have lA: "links list i Head A" and lB: "links list i (Elem a) B"
    and en: "NextAt list (lastRef (Elem a) B) i = Inr None"
    by (simp_all add: chainAt_def)
  have pA: "lastRef Head A = Head \<or> lastRef Head A \<in> Elem ` set A"
    by (rule lastRef_mem)
  have 1: "links list' i Head A"
  proof (rule links_frame[OF lA], intro ballI)
    fix r assume r: "r \<in> set (butlast (Head # map Elem A))"
    have "r \<noteq> lastRef Head A"
      using d r by (intro source_not_lastRef[of A]) auto
    then show "NextAt list' r i = NextAt list r i" using old by simp
  qed
  have 2: "links list' i (lastRef Head A) B \<and> NextAt list' (lastRef (lastRef Head A) B) i = Inr None"
  proof (cases B)
    case Nil
    with en new show ?thesis by simp
  next
    case (Cons b B')
    have nb: "\<forall>r\<in>Elem ` set B. r \<noteq> lastRef Head A"
      using pA d by auto
    have "links list i (Elem b) B'" using lB Cons by simp
    then have "links list' i (Elem b) B'"
    proof (rule links_frame, intro ballI)
      fix r assume "r \<in> set (butlast (Elem b # map Elem B'))"
      then have "r = Elem b \<or> r \<in> Elem ` set B'" by (rule source_mem)
      then have "r \<in> Elem ` set B" using Cons by auto
      with nb old show "NextAt list' r i = NextAt list r i" by blast
    qed
    moreover have "NextAt list' (lastRef Head A) i = Inr (Some b)"
      using new lB Cons by simp
    moreover have "lastRef (Elem a) B \<in> Elem ` set B"
      using Cons lastRef_mem[of "Elem b" B'] by auto
    then have "NextAt list' (lastRef (Elem a) B) i = NextAt list (lastRef (Elem a) B) i"
      using nb old by blast
    then have "NextAt list' (lastRef (Elem b) B') i = Inr None"
      using en Cons by simp
    ultimately show ?thesis using Cons by simp
  qed
  from 1 2 show ?thesis by (simp add: chainAt_def)
qed

subsection \<open>Splitting the level-0 chain at a key\<close>

text \<open>A strictly ascending chain is the elements below the search key followed by the
  others, and an element with the search key is the first of the others. From this, what
  the search, \<open>Get\<close> and the test after the search return.\<close>

lemma sorted_parts:
  "sorted_wrt (klt list) c \<Longrightarrow>
   \<exists>L H. c = L @ H \<and> (\<forall>a\<in>set L. below list k a) \<and> (\<forall>a\<in>set H. \<not> below list k a)"
proof (induction c)
  case Nil
  then show ?case by simp
next
  case (Cons x xs)
  show ?case
  proof (cases "below list k x")
    case True
    from Cons obtain L H where "xs = L @ H" "\<forall>a\<in>set L. below list k a"
      "\<forall>a\<in>set H. \<not> below list k a" by auto
    with True show ?thesis
      by (intro exI[of _ "x # L"] exI[of _ H]) simp
  next
    case False
    have "\<not> below list k y" if y: "y \<in> set xs" for y
    proof
      assume "below list k y"
      then have "Compare (keyOf list y) k < 0"
        using Compare_flip[of "keyOf list y" k] by (simp add: below_def)
      moreover have "klt list x y" using Cons.prems y by simp
      ultimately have "Compare (keyOf list x) k < 0" by (rule Compare_trans[rotated])
      then have "below list k x"
        using Compare_flip[of "keyOf list x" k] by (simp add: below_def)
      with False show False by simp
    qed
    with False show ?thesis
      by (intro exI[of _ "[]"] exI[of _ "x # xs"]) simp
  qed
qed

lemma sorted_distinct: "sorted_wrt (klt list) c \<Longrightarrow> distinct c"
  by (induction c) auto

lemma key_in_parts:
  assumes "sorted_wrt (klt list) (L @ H)" "\<forall>a\<in>set L. below list k a"
    "\<forall>a\<in>set H. \<not> below list k a" "a \<in> set (L @ H)" "keyOf list a = k"
  shows "\<exists>H'. H = a # H'"
proof -
  have "\<not> below list k a" using assms(5) by (simp add: below_def)
  with assms have aH: "a \<in> set H" by auto
  then obtain h H' where H: "H = h # H'" by (cases H) auto
  have "a = h"
  proof (rule ccontr)
    assume "a \<noteq> h"
    with aH H have "a \<in> set H'" by simp
    with assms(1) H have "klt list h a" by (simp add: sorted_wrt_append)
    then have "below list k h"
      using assms(5) Compare_flip[of "keyOf list h" k] by (simp add: below_def)
    with assms(3) H show False by simp
  qed
  with H show ?thesis by simp
qed

lemma inv_valid: "listInv list c \<Longrightarrow> a \<in> set c \<Longrightarrow>
    a < length (heap list) \<and> 1 \<le> height list a \<and> int (height list a) \<le> maxLevel list"
  by (simp add: listInv_def)

lemma inv_chain: "listInv list c \<Longrightarrow> i < length (next list) \<Longrightarrow>
    chainAt list i (filter (\<lambda>a. i < height list a) c)"
  by (simp add: listInv_def)

lemma inv_sorted: "listInv list c \<Longrightarrow> sorted_wrt (klt list) c"
  by (simp add: listInv_def)

lemma pred_max:
  assumes "listInv list (L @ H)"
  shows "predAt list L (nat (maxLevel list)) = Head"
proof (rule pred_top, intro ballI)
  fix a assume "a \<in> set L"
  then have "int (height list a) \<le> maxLevel list"
    using inv_valid[OF assms, of a] by simp
  then show "height list a \<le> nat (maxLevel list)" by simp
qed

lemma getPrevElementNodes_inv:
  assumes "listInv list (L @ H)" "usable list" "\<forall>a\<in>set L. below list k a"
    "\<forall>a\<in>set H. \<not> below list k a"
  shows "getPrevElementNodes list k = Some (Inr (), list\<lparr>prevNodesCache := filled list L\<rparr>)"
  using getPrev_levels_inv[OF assms, of "nat (maxLevel list)"] pred_max[OF assms(1)]
  by (simp add: getPrevElementNodes_def filled_def)

lemma filled_length:
  "listInv list c \<Longrightarrow> usable list \<Longrightarrow> length (filled list L) = length (next list)"
  by (auto simp: filled_def listInv_def usable_def)

lemma filled_nth:
  "j < nat (maxLevel list) \<Longrightarrow> filled list L ! j = Some (predAt list L j)"
  by (simp add: filled_def nth_append)

lemma prevsAt_filled:
  "j < nat (maxLevel list) \<Longrightarrow> prevNodesCache list' = filled list L \<Longrightarrow>
   prevsAt list' j = Inr (predAt list L j)"
  by (simp add: prevsAt_def filled_nth) (simp add: filled_def)

lemma filter_all_heights:
  assumes "listInv list (L @ H)"
  shows "filter (\<lambda>a. 0 < height list a) H = H"
proof (intro filter_True ballI)
  fix a assume "a \<in> set H"
  then have "1 \<le> height list a" using inv_valid[OF assms, of a] by simp
  then show "0 < height list a" by simp
qed

lemma candidate_inv:
  assumes "listInv list (L @ H)" "usable list"
  shows "NextAt list (predAt list L 0) 0 = Inr (headOpt H)"
proof -
  have "0 < length (next list)"
    using assms by (cases "next list") (auto simp: listInv_def usable_def)
  from level_next[OF inv_chain[OF assms(1) this]] filter_all_heights[OF assms(1)]
  show ?thesis by simp
qed

lemma Get_levels_inv:
  assumes "listInv list (L @ H)" "usable list" "\<forall>a\<in>set L. below list k a"
    "\<forall>a\<in>set H. \<not> below list k a" "j \<le> nat (maxLevel list)"
  shows "Get_levels list k j (predAt list L j) nxt =
    Some (Inr (if j = 0 then nxt else headOpt H))"
  using assms(5)
proof (induction j arbitrary: nxt)
  case 0
  then show ?case by simp
next
  case (Suc j)
  let ?hi = "\<lambda>a. j < height list a"
  have jn: "j < length (next list)"
    using Suc.prems assms(1,2) by (auto simp: listInv_def usable_def)
  have ch: "chainAt list j (filter ?hi (L @ H))"
    using assms(1) jn by (simp add: listInv_def)
  obtain B where B: "links list j (predAt list L (Suc j)) B"
    "lastRef (predAt list L (Suc j)) B = predAt list L j" "set B \<subseteq> set L"
    using level_step[OF ch] by blast
  let ?q = "headOpt (filter ?hi H)"
  have q: "NextAt list (predAt list L j) j = Inr ?q" by (rule level_next[OF ch])
  obtain n where n: "NextAt list (predAt list L (Suc j)) j = Inr n"
  proof (cases B)
    case Nil
    with B q that show ?thesis by simp
  next
    case (Cons b B')
    with B that show ?thesis by simp
  qed
  have valid: "\<forall>a\<in>set (L @ H). a < length (heap list)"
    using assms(1) by (simp add: listInv_def)
  have Bok: "\<forall>b\<in>set B. b < length (heap list) \<and> 0 < Compare k (keyOf list b)"
    using B(3) valid assms(3) by (auto simp: below_def)
  have qok: "case ?q of None \<Rightarrow> True
    | Some a \<Rightarrow> a < length (heap list) \<and> \<not> 0 < Compare k (keyOf list a)"
  proof (cases "filter ?hi H")
    case Nil
    then show ?thesis by simp
  next
    case (Cons a as)
    then have "a \<in> set H" by (metis filter_is_subset list.set_intros(1) subsetD)
    with valid assms(4) Cons show ?thesis by (simp add: below_def)
  qed
  have scan: "scanLevel list k j (predAt list L (Suc j)) n = Some (Inr (predAt list L j, ?q))"
    using scanLevel_links[OF B(1) Bok n _ qok] B(2) q by simp
  have "Get_levels list k (Suc j) (predAt list L (Suc j)) nxt =
      Get_levels list k j (predAt list L j) ?q"
    using n scan by simp
  also have "\<dots> = Some (Inr (if j = 0 then ?q else headOpt H))"
    using Suc by simp
  also have "(if j = 0 then ?q else headOpt H) = headOpt H"
    using filter_all_heights[OF assms(1)] by simp
  finally show ?case by simp
qed

lemma matchKey_inv:
  assumes "listInv list (L @ H)" "\<forall>a\<in>set H. \<not> below list k a"
  shows "matchKey list (headOpt H) k =
    Inr (case H of [] \<Rightarrow> None | h # _ \<Rightarrow> if keyOf list h = k then Some h else None)"
proof (cases H)
  case Nil
  then show ?thesis by (simp add: matchKey_def)
next
  case (Cons h H')
  have "h < length (heap list)" using inv_valid[OF assms(1), of h] Cons by simp
  moreover have "Compare (keyOf list h) k \<le> 0 \<longleftrightarrow> keyOf list h = k"
  proof
    assume "Compare (keyOf list h) k \<le> 0"
    moreover have "\<not> 0 < Compare k (keyOf list h)" using assms(2) Cons by (simp add: below_def)
    ultimately have "Compare (keyOf list h) k = 0"
      using Compare_flip[of "keyOf list h" k] by simp
    then show "keyOf list h = k" by (simp add: Compare_eq_0)
  qed simp
  ultimately show ?thesis using Cons by (simp add: matchKey_def elemAt_def keyOf_def)
qed

lemma Get_inv:
  assumes "listInv list (L @ H)" "usable list" "\<forall>a\<in>set L. below list k a"
    "\<forall>a\<in>set H. \<not> below list k a"
  shows "Get list k =
    Some (Inr (case H of [] \<Rightarrow> None | h # _ \<Rightarrow> if keyOf list h = k then Some h else None), list)"
proof -
  have "Get_levels list k (nat (maxLevel list)) Head None = Some (Inr (headOpt H))"
    using Get_levels_inv[OF assms, of "nat (maxLevel list)" None] pred_max[OF assms(1)] assms(1)
    by (auto simp: listInv_def)
  then show ?thesis
    using matchKey_inv[OF assms(1,4)]
    by (cases H) (simp_all add: Get_def)
qed

lemma not_usable_NextAt:
  "\<not> usable list \<Longrightarrow> 1 \<le> maxLevel list \<Longrightarrow>
   \<exists>i. nat (maxLevel list) = Suc i \<and> NextAt list Head i = Inl IndexOutOfRange"
  by (cases "nat (maxLevel list)") (auto simp: usable_def NextAt_def nodeNext_def)

lemma getPrevElementNodes_not_usable:
  "\<not> usable list \<Longrightarrow> 1 \<le> maxLevel list \<Longrightarrow>
   getPrevElementNodes list k = Some (Inl IndexOutOfRange, list)"
  using not_usable_NextAt[of list] by (auto simp: getPrevElementNodes_def)

lemma Get_not_usable:
  "\<not> usable list \<Longrightarrow> 1 \<le> maxLevel list \<Longrightarrow> Get list k = Some (Inl IndexOutOfRange, list)"
  using not_usable_NextAt[of list] by (auto simp: Get_def)

declare randLevel_loop.simps [simp del]

subsection \<open>Set\<close>

text \<open>The height drawn is between 1 and \<open>maxLevel\<close>. \<open>Set\<close> on a key that is present
  replaces the value; on an absent key it puts the new element between the two parts of
  the chain, at every level below its height, and the invariant holds again.\<close>

lemma inv_cong:
  assumes inv: "listInv list c"
    and eqs: "maxLevel list' = maxLevel list" "Length list' = Length list"
      "length (prevNodesCache list') = length (next list')"
      "length (next list') = length (next list)"
      "usable list \<longrightarrow> nat (maxLevel list) \<le> length (probTable list')"
      "length (heap list) \<le> length (heap list')"
    and obs: "\<forall>a\<in>set c. keyOf list' a = keyOf list a \<and> height list' a = height list a"
    and nx: "\<forall>i<length (next list). \<forall>r\<in>set (Head # map Elem c).
      NextAt list' r i = NextAt list r i"
  shows "listInv list' c"
proof -
  have us: "usable list' = usable list" using eqs(1,4) by (simp add: usable_def)
  have v: "\<forall>a\<in>set c. a < length (heap list') \<and> 1 \<le> height list' a \<and>
      int (height list' a) \<le> maxLevel list'"
  proof
    fix a assume a: "a \<in> set c"
    from inv_valid[OF inv a] obs a eqs(1,6)
    show "a < length (heap list') \<and> 1 \<le> height list' a \<and>
      int (height list' a) \<le> maxLevel list'" by auto
  qed
  have s: "sorted_wrt (klt list') c"
  proof (rule sorted_wrt_mono_rel[OF _ inv_sorted[OF inv]])
    fix x y assume "x \<in> set c" "y \<in> set c" "klt list x y"
    with obs show "klt list' x y" by simp
  qed
  have c: "\<forall>i<length (next list'). chainAt list' i (filter (\<lambda>a. i < height list' a) c)"
  proof (intro allI impI)
    fix i assume "i < length (next list')"
    then have i: "i < length (next list)" using eqs(4) by simp
    have f: "filter (\<lambda>a. i < height list' a) c = filter (\<lambda>a. i < height list a) c"
      using obs by (intro filter_cong) auto
    have "chainAt list' i (filter (\<lambda>a. i < height list a) c)"
    proof (rule chain_same[OF inv_chain[OF inv i]], intro ballI)
      fix r assume "r \<in> set (Head # map Elem (filter (\<lambda>a. i < height list a) c))"
      then have "r \<in> set (Head # map Elem c)" by auto
      with nx i show "NextAt list' r i = NextAt list r i" by blast
    qed
    with f show "chainAt list' i (filter (\<lambda>a. i < height list' a) c)" by simp
  qed
  have "1 \<le> maxLevel list'" "usable list' \<longrightarrow> nat (maxLevel list') \<le> length (probTable list')"
    "\<not> usable list' \<longrightarrow> c = []" "Length list' = int (length c)" "next list' \<noteq> []"
    using inv eqs(1,2,4,5) us by (auto simp: listInv_def)
  with eqs(3) v s c show ?thesis unfolding listInv_def by blast
qed

lemma randLevel_loop_bound:
  "nat (maxLevel list) \<le> length (probTable list) \<Longrightarrow> int level \<le> maxLevel list \<Longrightarrow>
   \<exists>l. randLevel_loop list r level = Inr l \<and> level \<le> l \<and> int l \<le> maxLevel list"
proof (induction list r level rule: randLevel_loop.induct)
  case (1 list r level)
  show ?case
  proof (cases "int level < maxLevel list")
    case False
    with 1(3) show ?thesis by (subst randLevel_loop.simps) simp
  next
    case True
    then have lt: "level < length (probTable list)" using 1(2) by linarith
    show ?thesis
    proof (cases "r < probTable list ! level")
      case r: True
      have "\<exists>l. randLevel_loop list r (Suc level) = Inr l \<and> Suc level \<le> l \<and>
          int l \<le> maxLevel list"
        using True lt r 1(2) by (intro 1(1)) auto
      then show ?thesis using True lt r
        by (subst randLevel_loop.simps) auto
    next
      case r: False
      with True lt 1(3) show ?thesis by (subst randLevel_loop.simps) simp
    qed
  qed
qed

lemma randLevel_inv:
  assumes "nat (maxLevel list) \<le> length (probTable list)" "1 \<le> maxLevel list"
  shows "\<exists>l. randLevel list = (Inr l, list\<lparr>randSource := (\<lambda>n. randSource list (Suc n))\<rparr>) \<and>
      1 \<le> l \<and> int l \<le> maxLevel list"
  using randLevel_loop_bound[of "list\<lparr>randSource := (\<lambda>n. randSource list (Suc n))\<rparr>" 1
      "randSource list 0"] assms
  by (auto simp: randLevel_def Let_def)

lemma matchKey_cache [simp]: "matchKey (list\<lparr>prevNodesCache := pc\<rparr>) = matchKey list"
  by (rule ext)+ (simp add: matchKey_def elemAt_def split: option.splits)

lemma maxLevel_pos: "listInv list c \<Longrightarrow> 0 < nat (maxLevel list)"
  by (simp add: listInv_def)

lemma Set_found_inv:
  assumes inv: "listInv list (L @ a # H')" and us: "usable list"
    and lo: "\<forall>b\<in>set L. below list k b" and hi: "\<forall>b\<in>set (a # H'). \<not> below list k b"
    and key: "keyOf list a = k"
  shows "Set list k v = Some (Inr a,
      list\<lparr>prevNodesCache := filled list L,
           heap := (heap list)[a := (heap list ! a)\<lparr>val := v\<rparr>]\<rparr>)"
proof -
  let ?l0 = "list\<lparr>prevNodesCache := filled list L\<rparr>"
  have g: "getPrevElementNodes list k = Some (Inr (), ?l0)"
    by (rule getPrevElementNodes_inv[OF inv us lo hi])
  have p: "prevsAt ?l0 0 = Inr (predAt list L 0)"
    using maxLevel_pos[OF inv] by (intro prevsAt_filled) simp_all
  have n: "Next ?l0 (predAt list L 0) = Inr (Some a)"
    using candidate_inv[OF inv us] by (simp add: Next_def)
  have m: "matchKey ?l0 (Some a) k = Inr (Some a)"
    using matchKey_inv[OF inv hi] key by simp
  show ?thesis
    using g p n m by (simp add: Set_def)
qed

lemma update_val_inv:
  assumes "listInv list c" "a < length (heap list)"
  shows "listInv (list\<lparr>heap := (heap list)[a := (heap list ! a)\<lparr>val := v\<rparr>]\<rparr>) c"
proof (rule inv_cong[OF assms(1)])
  let ?l = "list\<lparr>heap := (heap list)[a := (heap list ! a)\<lparr>val := v\<rparr>]\<rparr>"
  show "\<forall>b\<in>set c. keyOf ?l b = keyOf list b \<and> height ?l b = height list b"
    using assms(2) by (auto simp: keyOf_def height_def nth_list_update)
  show "\<forall>i<length (next list). \<forall>r\<in>set (Head # map Elem c). NextAt ?l r i = NextAt list r i"
    using assms(2)
    by (auto simp: NextAt_def nodeNext_def elemAt_def nth_list_update split: noderef.splits)
qed (use assms in \<open>simp_all add: listInv_def\<close>)

lemma obs_eq:
  assumes "next l' = next l" "heap l' = heap l"
  shows "NextAt l' = NextAt l" "keyOf l' = keyOf l" "height l' = height l"
  using assms
  by (auto simp: fun_eq_iff NextAt_def nodeNext_def elemAt_def keyOf_def height_def
      split: noderef.splits)

lemma alloc_NextAt:
  "NextAt (list\<lparr>heap := heap list @ [e]\<rparr>) r j =
     (if r = Elem (length (heap list))
      then (if j < length (next e) then Inr (next e ! j) else Inl IndexOutOfRange)
      else NextAt list r j)"
  by (auto simp: NextAt_def nodeNext_def elemAt_def nth_append split: noderef.splits)

lemma alloc_obs:
  "keyOf (list\<lparr>heap := heap list @ [e]\<rparr>) b =
     (if b = length (heap list) then key e else keyOf list b)"
  "height (list\<lparr>heap := heap list @ [e]\<rparr>) b =
     (if b = length (heap list) then length (next e) else height list b)"
  if "b \<le> length (heap list)"
  using that by (auto simp: keyOf_def height_def nth_append)

lemma pred_mem: "predAt list L j = Head \<or> predAt list L j \<in> Elem ` set L"
  using lastRef_mem[of Head "filter (\<lambda>a. j < height list a) L"] by (auto simp: predAt_def)

lemma Set_insert_inv:
  fixes list :: "('v, 'f::ord) SkipList"
  assumes inv: "listInv list (L @ H)" and us: "usable list"
    and lo: "\<forall>b\<in>set L. below list k b" and hi: "\<forall>b\<in>set H. \<not> below list k b"
    and nf: "\<forall>b\<in>set H. keyOf list b \<noteq> k"
  shows "\<exists>list'. Set list k v = Some (Inr (length (heap list)), list') \<and>
      listInv list' (L @ length (heap list) # H) \<and>
      maxLevel list' = maxLevel list \<and> length (next list') = length (next list) \<and>
      length (heap list') = Suc (length (heap list)) \<and>
      keyOf list' (length (heap list)) = k \<and> val (heap list' ! length (heap list)) = v \<and>
      (\<forall>b<length (heap list). keyOf list' b = keyOf list b \<and> height list' b = height list b \<and>
          val (heap list' ! b) = val (heap list ! b))"
proof -
  let ?a = "length (heap list)"
  let ?m = "nat (maxLevel list)"
  let ?p = "predAt list L"
  let ?q = "\<lambda>j. headOpt (filter (\<lambda>b. j < height list b) H)"
  let ?l0 = "list\<lparr>prevNodesCache := filled list L\<rparr>"
  have mlen: "?m \<le> length (next list)" using us by (simp add: usable_def)
  have g: "getPrevElementNodes list k = Some (Inr (), ?l0)"
    by (rule getPrevElementNodes_inv[OF inv us lo hi])
  have p0: "prevsAt ?l0 0 = Inr (?p 0)"
    using maxLevel_pos[OF inv] by (intro prevsAt_filled) simp_all
  have n0: "Next ?l0 (?p 0) = Inr (headOpt H)"
    using candidate_inv[OF inv us] by (simp add: Next_def)
  have km: "matchKey ?l0 (headOpt H) k = Inr None"
    using matchKey_inv[OF inv hi] nf by (cases H) simp_all
  let ?l1 = "?l0\<lparr>randSource := (\<lambda>n. randSource ?l0 (Suc n))\<rparr>"
  have "nat (maxLevel ?l0) \<le> length (probTable ?l0)" "1 \<le> maxLevel ?l0"
    using inv us by (simp_all add: listInv_def)
  from randLevel_inv[OF this] obtain lvl where
    rl: "randLevel ?l0 = (Inr lvl, ?l1)" and lvl: "1 \<le> lvl" "int lvl \<le> maxLevel list"
    by auto
  let ?e = "\<lparr>next = replicate lvl None, key = k, val = v\<rparr>"
  let ?l2 = "?l1\<lparr>heap := heap ?l1 @ [?e]\<rparr>"
  have o1: "NextAt ?l1 = NextAt list" "keyOf ?l1 = keyOf list" "height ?l1 = height list"
    by (rule obs_eq; simp)+
  have N2: "NextAt ?l2 r j =
      (if r = Elem ?a then (if j < lvl then Inr None else Inl IndexOutOfRange)
       else NextAt list r j)" for r j
    using alloc_NextAt[of ?l1 ?e r j] o1 by simp
  have K2: "keyOf ?l2 b = (if b = ?a then k else keyOf list b)"
      "height ?l2 b = (if b = ?a then lvl else height list b)" if "b \<le> ?a" for b
    using alloc_obs[of b ?l1 ?e] o1 that by simp_all
  have old: "b < ?a" if "b \<in> set (L @ H)" for b
    using inv_valid[OF inv that] by simp
  have pa: "?p j \<noteq> Elem ?a" for j
  proof
    assume "?p j = Elem ?a"
    with pred_mem[of list L j] have "?a \<in> set (L @ H)" by auto
    from old[OF this] show False by simp
  qed
  have pre: "\<forall>j. 0 \<le> j \<and> j < 0 + lvl \<longrightarrow>
      prevsAt ?l2 j = Inr (?p j) \<and> NextAt ?l2 (?p j) j = Inr (?q j) \<and> ?p j \<noteq> Elem ?a \<and>
      (\<exists>x. NextAt ?l2 (Elem ?a) j = Inr x)"
  proof (intro allI impI)
    fix j assume "0 \<le> j \<and> j < 0 + lvl"
    then have j: "j < lvl" by simp
    then have jm: "j < ?m" using lvl by linarith
    then have jn: "j < length (next list)" using mlen by simp
    have "prevsAt ?l2 j = Inr (?p j)"
      using jm by (intro prevsAt_filled) simp_all
    moreover have "NextAt ?l2 (?p j) j = Inr (?q j)"
      using level_next[OF inv_chain[OF inv jn]] pa N2 by simp
    moreover have "NextAt ?l2 (Elem ?a) j = Inr None" using N2 j by simp
    ultimately show "prevsAt ?l2 j = Inr (?p j) \<and> NextAt ?l2 (?p j) j = Inr (?q j) \<and>
      ?p j \<noteq> Elem ?a \<and> (\<exists>x. NextAt ?l2 (Elem ?a) j = Inr x)"
      using pa by simp
  qed
  from Set_splice_ok[OF pre] obtain l3 where
    sp: "Set_splice ?a 0 lvl ?l2 = (Inr (), l3)" and sh: "sameShape ?l2 l3" and
    N3: "\<forall>r j. NextAt l3 r j =
       (if 0 \<le> j \<and> j < 0 + lvl
        then (if r = ?p j then Inr (Some ?a) else if r = Elem ?a then Inr (?q j)
              else NextAt ?l2 r j)
        else NextAt ?l2 r j)"
    by blast
  let ?l4 = "l3\<lparr>Length := Length l3 + 1\<rparr>"
  have res: "Set list k v = Some (Inr ?a, ?l4)"
    using g p0 n0 km rl sp by (simp add: Set_def Let_def)
  have o4: "NextAt ?l4 = NextAt l3" "keyOf ?l4 = keyOf l3" "height ?l4 = height l3"
    by (rule obs_eq; simp)+
  have K4: "keyOf ?l4 b = (if b = ?a then k else keyOf list b)"
      "height ?l4 b = (if b = ?a then lvl else height list b)" if "b \<le> ?a" for b
    using K2[OF that] sh o4 by (simp_all add: sameShape_def)
  have N4: "NextAt ?l4 r j =
       (if j < lvl
        then (if r = ?p j then Inr (Some ?a) else if r = Elem ?a then Inr (?q j)
              else NextAt list r j)
        else if r = Elem ?a then Inl IndexOutOfRange else NextAt list r j)" for r j
    using N3 N2 o4 by simp
  have fields: "maxLevel ?l4 = maxLevel list" "Length ?l4 = Length list + 1"
    "length (next ?l4) = length (next list)" "probTable ?l4 = probTable list"
    "prevNodesCache ?l4 = filled list L" "length (heap ?l4) = Suc ?a"
    using sh by (simp_all add: sameShape_def)
  have vals: "val (heap ?l4 ! b) = (if b = ?a then v else val (heap list ! b))"
    if "b \<le> ?a" for b
    using sh that by (auto simp: sameShape_def nth_append)
  have wf4: "listInv ?l4 (L @ ?a # H)"
  proof -
    have u4: "usable ?l4" using us fields by (simp add: usable_def)
    have c1: "length (prevNodesCache ?l4) = length (next ?l4)"
      using fields filled_length[OF inv us] by simp
    have c2: "nat (maxLevel ?l4) \<le> length (probTable ?l4)"
      using inv us fields by (simp add: listInv_def)
    have c3: "\<forall>b\<in>set (L @ ?a # H). b < length (heap ?l4) \<and> 1 \<le> height ?l4 b \<and>
        int (height ?l4 b) \<le> maxLevel ?l4"
    proof
      fix b assume b: "b \<in> set (L @ ?a # H)"
      show "b < length (heap ?l4) \<and> 1 \<le> height ?l4 b \<and> int (height ?l4 b) \<le> maxLevel ?l4"
      proof (cases "b = ?a")
        case True
        then show ?thesis using K4(2)[of b] lvl fields by simp
      next
        case False
        with b have bo: "b \<in> set (L @ H)" by auto
        from inv_valid[OF inv bo] old[OF bo] K4(2)[of b] fields show ?thesis by simp
      qed
    qed
    have kk: "keyOf ?l4 b = keyOf list b" if "b \<in> set (L @ H)" for b
      using old[OF that] K4(1)[of b] by simp
    have hh: "height ?l4 b = height list b" if "b \<in> set (L @ H)" for b
      using old[OF that] K4(2)[of b] by simp
    have ka: "keyOf ?l4 ?a = k" using K4(1)[of ?a] by simp
    have so: "sorted_wrt (klt list) (L @ H)" by (rule inv_sorted[OF inv])
    have c4: "sorted_wrt (klt ?l4) (L @ ?a # H)"
    proof -
      have sL: "sorted_wrt (klt ?l4) L"
        using so kk by (auto simp: sorted_wrt_append intro: sorted_wrt_mono_rel[rotated])
      have sH: "sorted_wrt (klt ?l4) H"
        using so kk by (auto simp: sorted_wrt_append intro: sorted_wrt_mono_rel[rotated])
      have LH: "klt ?l4 x y" if "x \<in> set L" "y \<in> set H" for x y
        using so that kk by (auto simp: sorted_wrt_append)
      have La: "klt ?l4 x ?a" if "x \<in> set L" for x
      proof -
        have "0 < Compare k (keyOf list x)" using lo that by (simp add: below_def)
        then show ?thesis using Compare_flip[of "keyOf list x" k] kk[of x] that ka by simp
      qed
      have aH: "klt ?l4 ?a y" if "y \<in> set H" for y
      proof -
        have "\<not> 0 < Compare k (keyOf list y)" using hi that by (simp add: below_def)
        moreover have "Compare k (keyOf list y) \<noteq> 0"
          using nf that by (auto simp: Compare_eq_0)
        ultimately show ?thesis using kk[of y] that ka by simp
      qed
      show ?thesis using sL sH LH La aH by (auto simp: sorted_wrt_append)
    qed
    have dis: "distinct (L @ H)" by (rule sorted_distinct[OF so])
    have c5: "\<forall>i<length (next ?l4). chainAt ?l4 i (filter (\<lambda>b. i < height ?l4 b) (L @ ?a # H))"
    proof (intro allI impI)
      fix i assume "i < length (next ?l4)"
      then have i: "i < length (next list)" using fields by simp
      let ?Li = "filter (\<lambda>b. i < height list b) L"
      let ?Hi = "filter (\<lambda>b. i < height list b) H"
      have fL: "filter (\<lambda>b. i < height ?l4 b) L = ?Li"
        using hh by (intro filter_cong) auto
      have fH: "filter (\<lambda>b. i < height ?l4 b) H = ?Hi"
        using hh by (intro filter_cong) auto
      have ha: "height ?l4 ?a = lvl" using K4(2)[of ?a] by simp
      have ch: "chainAt list i (?Li @ ?Hi)" using inv_chain[OF inv i] by simp
      show "chainAt ?l4 i (filter (\<lambda>b. i < height ?l4 b) (L @ ?a # H))"
      proof (cases "i < lvl")
        case True
        have "chainAt ?l4 i (?Li @ ?a # ?Hi)"
        proof (rule chain_insert[OF ch])
          show "distinct (?Li @ ?Hi)" using dis by auto
          show "?a \<notin> set (?Li @ ?Hi)" using old by auto
          show "NextAt ?l4 (lastRef Head ?Li) i = Inr (Some ?a)"
            using N4[of "?p i" i] True by (simp add: predAt_def)
          show "NextAt ?l4 (Elem ?a) i = NextAt list (lastRef Head ?Li) i"
            using N4[of "Elem ?a" i] True pa[of i] level_next[OF inv_chain[OF inv i]]
            by (simp add: predAt_def)
          show "\<forall>r. r \<noteq> lastRef Head ?Li \<and> r \<noteq> Elem ?a \<longrightarrow>
              NextAt ?l4 r i = NextAt list r i"
            using N4 True by (simp add: predAt_def)
        qed
        then show ?thesis using True fL fH ha by simp
      next
        case False
        have "chainAt ?l4 i (?Li @ ?Hi)"
        proof (rule chain_same[OF ch], intro ballI)
          fix r assume "r \<in> set (Head # map Elem (?Li @ ?Hi))"
          then have "r \<noteq> Elem ?a" using old by auto
          then show "NextAt ?l4 r i = NextAt list r i" using N4[of r i] False by simp
        qed
        then show ?thesis using False fL fH ha by simp
      qed
    qed
    have c6: "Length ?l4 = int (length (L @ ?a # H))"
      using inv fields by (simp add: listInv_def)
    have c0: "1 \<le> maxLevel ?l4" using inv fields by (simp add: listInv_def)
    have c7: "next ?l4 \<noteq> []" using inv fields(3) by (auto simp: listInv_def)
    show ?thesis
      unfolding listInv_def using c0 c1 c2 c3 c4 c5 c6 c7 u4 by blast
  qed
  have frame: "\<forall>b<?a. keyOf ?l4 b = keyOf list b \<and> height ?l4 b = height list b \<and>
          val (heap ?l4 ! b) = val (heap list ! b)"
    using K4 vals by simp
  show ?thesis
    using res wf4 fields(1,3,6) K4(1)[of ?a] vals[of ?a] frame by (intro exI[of _ ?l4]) simp
qed

subsection \<open>Remove\<close>

text \<open>\<open>Remove\<close> on an absent key changes the scratch buffer only; on a present key it takes
  the element out of the chain of every level below its height. On a list that is not
  usable the search panics at its first read, and so do \<open>Set\<close>, \<open>Remove\<close> and \<open>Get\<close>.\<close>

lemma Remove_absent_inv:
  assumes inv: "listInv list (L @ H)" and us: "usable list"
    and lo: "\<forall>b\<in>set L. below list k b" and hi: "\<forall>b\<in>set H. \<not> below list k b"
    and nf: "\<forall>b\<in>set H. keyOf list b \<noteq> k"
  shows "Remove list k = Some (Inr None, list\<lparr>prevNodesCache := filled list L\<rparr>)"
proof -
  let ?l0 = "list\<lparr>prevNodesCache := filled list L\<rparr>"
  have g: "getPrevElementNodes list k = Some (Inr (), ?l0)"
    by (rule getPrevElementNodes_inv[OF inv us lo hi])
  have p0: "prevsAt ?l0 0 = Inr (predAt list L 0)"
    using maxLevel_pos[OF inv] by (intro prevsAt_filled) simp_all
  have n0: "Next ?l0 (predAt list L 0) = Inr (headOpt H)"
    using candidate_inv[OF inv us] by (simp add: Next_def)
  have km: "matchKey ?l0 (headOpt H) k = Inr None"
    using matchKey_inv[OF inv hi] nf by (cases H) simp_all
  show ?thesis using g p0 n0 km by (simp add: Remove_def)
qed

lemma Remove_found_inv:
  assumes inv: "listInv list (L @ a # H')" and us: "usable list"
    and lo: "\<forall>b\<in>set L. below list k b" and hi: "\<forall>b\<in>set (a # H'). \<not> below list k b"
    and key: "keyOf list a = k"
  shows "\<exists>list'. Remove list k = Some (Inr (Some a), list') \<and> listInv list' (L @ H') \<and>
      maxLevel list' = maxLevel list \<and> length (next list') = length (next list) \<and>
      length (heap list') = length (heap list) \<and>
      (\<forall>b. keyOf list' b = keyOf list b \<and> height list' b = height list b \<and>
          val (heap list' ! b) = val (heap list ! b))"
proof -
  let ?m = "nat (maxLevel list)"
  let ?p = "predAt list L"
  let ?h = "height list a"
  let ?q = "\<lambda>j. headOpt (filter (\<lambda>b. j < height list b) H')"
  let ?l0 = "list\<lparr>prevNodesCache := filled list L\<rparr>"
  have mlen: "?m \<le> length (next list)" using us by (simp add: usable_def)
  have g: "getPrevElementNodes list k = Some (Inr (), ?l0)"
    by (rule getPrevElementNodes_inv[OF inv us lo hi])
  have p0: "prevsAt ?l0 0 = Inr (?p 0)"
    using maxLevel_pos[OF inv] by (intro prevsAt_filled) simp_all
  have n0: "Next ?l0 (?p 0) = Inr (Some a)"
    using candidate_inv[OF inv us] by (simp add: Next_def)
  have km: "matchKey ?l0 (Some a) k = Inr (Some a)"
    using matchKey_inv[OF inv hi] key by simp
  have o0: "NextAt ?l0 = NextAt list" "keyOf ?l0 = keyOf list" "height ?l0 = height list"
    by (rule obs_eq; simp)+
  have so: "sorted_wrt (klt list) (L @ a # H')" by (rule inv_sorted[OF inv])
  have dis: "distinct (L @ a # H')" by (rule sorted_distinct[OF so])
  have hm: "?h \<le> ?m" using inv_valid[OF inv, of a] by auto
  have pa: "?p j \<noteq> Elem a" for j
    using pred_mem[of list L j] dis by auto
  have inv': "listInv list ((L @ [a]) @ H')" using inv by simp
  have ea: "NextAt list (Elem a) j = Inr (?q j)" if "j < ?h" "j < length (next list)" for j
    using level_next[OF inv_chain[OF inv' that(2)]] that(1) by (simp add: predAt_def)
  have pre: "\<forall>j. 0 \<le> j \<and> j < 0 + ?h \<longrightarrow>
      prevsAt ?l0 j = Inr (?p j) \<and> NextAt ?l0 (Elem a) j = Inr (?q j) \<and> ?p j \<noteq> Elem a \<and>
      (\<exists>x. NextAt ?l0 (?p j) j = Inr x)"
  proof (intro allI impI)
    fix j assume "0 \<le> j \<and> j < 0 + ?h"
    then have j: "j < ?h" by simp
    then have jm: "j < ?m" using hm by linarith
    then have jn: "j < length (next list)" using mlen by simp
    have "prevsAt ?l0 j = Inr (?p j)"
      using jm by (intro prevsAt_filled) simp_all
    moreover have "NextAt ?l0 (Elem a) j = Inr (?q j)" using ea[OF j jn] o0 by simp
    moreover have "\<exists>x. NextAt ?l0 (?p j) j = Inr x"
      using level_next[OF inv_chain[OF inv jn]] o0 by simp
    ultimately show "prevsAt ?l0 j = Inr (?p j) \<and> NextAt ?l0 (Elem a) j = Inr (?q j) \<and>
      ?p j \<noteq> Elem a \<and> (\<exists>x. NextAt ?l0 (?p j) j = Inr x)"
      using pa by simp
  qed
  from Remove_unlink_ok[OF pre] obtain l3 where
    ul: "Remove_unlink a 0 ?h ?l0 = (Inr (), l3)" and sh: "sameShape ?l0 l3" and
    N3: "\<forall>r j. NextAt l3 r j =
       (if 0 \<le> j \<and> j < 0 + ?h \<and> r = ?p j then Inr (?q j) else NextAt ?l0 r j)"
    by blast
  let ?l4 = "l3\<lparr>Length := Length l3 - 1\<rparr>"
  have res: "Remove list k = Some (Inr (Some a), ?l4)"
    using g p0 n0 km ul by (simp add: Remove_def height_def)
  have o4: "NextAt ?l4 = NextAt l3" "keyOf ?l4 = keyOf l3" "height ?l4 = height l3"
    by (rule obs_eq; simp)+
  have K4: "keyOf ?l4 b = keyOf list b" "height ?l4 b = height list b"
    "val (heap ?l4 ! b) = val (heap list ! b)" for b
    using sh o4 o0 by (simp_all add: sameShape_def)
  have N4: "NextAt ?l4 r j = (if j < ?h \<and> r = ?p j then Inr (?q j) else NextAt list r j)"
    for r j
    using N3 o4 o0 by simp
  have fields: "maxLevel ?l4 = maxLevel list" "Length ?l4 = Length list - 1"
    "length (next ?l4) = length (next list)" "probTable ?l4 = probTable list"
    "prevNodesCache ?l4 = filled list L" "length (heap ?l4) = length (heap list)"
    using sh by (simp_all add: sameShape_def)
  have wf4: "listInv ?l4 (L @ H')"
  proof -
    have u4: "usable ?l4" using us fields by (simp add: usable_def)
    have c0: "1 \<le> maxLevel ?l4" using inv fields by (simp add: listInv_def)
    have c1: "length (prevNodesCache ?l4) = length (next ?l4)"
      using fields filled_length[OF inv us] by simp
    have c2: "nat (maxLevel ?l4) \<le> length (probTable ?l4)"
      using inv us fields by (simp add: listInv_def)
    have c3: "\<forall>b\<in>set (L @ H'). b < length (heap ?l4) \<and> 1 \<le> height ?l4 b \<and>
        int (height ?l4 b) \<le> maxLevel ?l4"
    proof
      fix b assume "b \<in> set (L @ H')"
      then have "b \<in> set (L @ a # H')" by auto
      from inv_valid[OF inv this] K4(2)[of b] fields
      show "b < length (heap ?l4) \<and> 1 \<le> height ?l4 b \<and> int (height ?l4 b) \<le> maxLevel ?l4"
        by simp
    qed
    have "sorted_wrt (klt list) (L @ H')"
      using so by (auto simp: sorted_wrt_append)
    then have c4: "sorted_wrt (klt ?l4) (L @ H')"
      using K4(1) by (auto intro: sorted_wrt_mono_rel[rotated])
    have c5: "\<forall>i<length (next ?l4). chainAt ?l4 i (filter (\<lambda>b. i < height ?l4 b) (L @ H'))"
    proof (intro allI impI)
      fix i assume "i < length (next ?l4)"
      then have i: "i < length (next list)" using fields by simp
      let ?Li = "filter (\<lambda>b. i < height list b) L"
      let ?Hi = "filter (\<lambda>b. i < height list b) H'"
      have f: "filter (\<lambda>b. i < height ?l4 b) (L @ H') = ?Li @ ?Hi"
        using K4(2) by simp
      have "chainAt ?l4 i (?Li @ ?Hi)"
      proof (cases "i < ?h")
        case True
        then have ch: "chainAt list i (?Li @ a # ?Hi)" using inv_chain[OF inv i] by simp
        show ?thesis
        proof (rule chain_remove[OF ch])
          show "distinct (?Li @ a # ?Hi)" using dis by auto
          show "NextAt ?l4 (lastRef Head ?Li) i = NextAt list (Elem a) i"
            using N4[of "?p i" i] ea[OF True i] True by (simp add: predAt_def)
          show "\<forall>r. r \<noteq> lastRef Head ?Li \<longrightarrow> NextAt ?l4 r i = NextAt list r i"
            using N4 by (simp add: predAt_def)
        qed
      next
        case False
        then have ch: "chainAt list i (?Li @ ?Hi)" using inv_chain[OF inv i] by simp
        show ?thesis
        proof (rule chain_same[OF ch], intro ballI)
          fix r show "NextAt ?l4 r i = NextAt list r i" using N4[of r i] False by simp
        qed
      qed
      with f show "chainAt ?l4 i (filter (\<lambda>b. i < height ?l4 b) (L @ H'))" by simp
    qed
    have c6: "Length ?l4 = int (length (L @ H'))"
      using inv fields by (simp add: listInv_def)
    have c7: "next ?l4 \<noteq> []" using inv fields(3) by (auto simp: listInv_def)
    show ?thesis
      unfolding listInv_def using c0 c1 c2 c3 c4 c5 c6 c7 u4 by blast
  qed
  show ?thesis
    using res wf4 fields(1,3,6) K4 by (intro exI[of _ ?l4]) simp
qed

lemma Set_not_usable:
  fixes list :: "('v, 'f::ord) SkipList"
  shows "\<not> usable list \<Longrightarrow> 1 \<le> maxLevel list \<Longrightarrow>
    Set list k v = Some (Inl IndexOutOfRange, list)"
  by (simp add: Set_def getPrevElementNodes_not_usable)

lemma Remove_not_usable:
  "\<not> usable list \<Longrightarrow> 1 \<le> maxLevel list \<Longrightarrow> Remove list k = Some (Inl IndexOutOfRange, list)"
  by (simp add: Remove_def getPrevElementNodes_not_usable)

subsection \<open>Walking the chains, and sequences of calls\<close>

text \<open>Walking a level returns the chain of the invariant. The constructor establishes the
  invariant, every call returns or panics and leaves a list that satisfies it, and so does
  every sequence of calls.\<close>

lemma walkLevel_links:
  "links list i n xs \<Longrightarrow> NextAt list (lastRef n xs) i = Inr None \<Longrightarrow>
   NextAt list n i = Inr p \<Longrightarrow> walkLevel list i p = Some (Inr xs)"
proof (induction xs arbitrary: n p)
  case Nil
  then show ?case by (subst walkLevel.simps) simp
next
  case (Cons a as)
  from Cons.prems have p: "p = Some a" by simp
  obtain q where q: "NextAt list (Elem a) i = Inr q"
    using Cons.prems by (cases as) auto
  have "walkLevel list i q = Some (Inr as)"
    using Cons.prems q by (intro Cons.IH[of "Elem a"]) auto
  then show ?case using p q by (subst walkLevel.simps) simp
qed

lemma levelChain_chainAt:
  assumes "chainAt list i xs"
  shows "levelChain list i = Some (Inr xs)"
proof -
  obtain p where p: "NextAt list Head i = Inr p"
    using assms by (cases xs) (auto simp: chainAt_def)
  from walkLevel_links[OF _ _ p, of xs] assms p show ?thesis
    by (simp add: levelChain_def chainAt_def)
qed

lemma levelChain_inv:
  "listInv list c \<Longrightarrow> i < length (next list) \<Longrightarrow>
   levelChain list i = Some (Inr (filter (\<lambda>a. i < height list a) c))"
  by (intro levelChain_chainAt inv_chain)

lemma elements_levelChain: "elements list = levelChain list 0"
  by (simp add: elements_def levelChain_def Front_def Next_def)

lemma elements_inv:
  assumes "listInv list c"
  shows "elements list = Some (Inr c)"
proof -
  have 0: "0 < length (next list)" using assms by (simp add: listInv_def)
  have "filter (\<lambda>a. 0 < height list a) c = c"
    using filter_all_heights[of list "[]" c] assms by simp
  with levelChain_inv[OF assms 0] show ?thesis by (simp add: elements_levelChain)
qed

lemma probabilityTable_length: "length (probabilityTable pow p n) = nat n"
  by (simp add: probabilityTable_def)

lemma NewWithMaxLevel_inv:
  assumes "NewWithMaxLevel pow p rs n = Inr list"
  shows "listInv list []" "maxLevel list = n" "1 \<le> n" "n \<le> 64"
  using assms
  by (auto simp: NewWithMaxLevel_def listInv_def usable_def chainAt_def NextAt_def nodeNext_def
      probabilityTable_length DefaultMaxLevel_def split: if_splits)

lemma SetProbability_inv: "listInv list c \<Longrightarrow> listInv (SetProbability pow list p) c"
proof (rule inv_cong)
  let ?l = "SetProbability pow list p"
  show "\<forall>a\<in>set c. keyOf ?l a = keyOf list a \<and> height ?l a = height list a"
    by (simp add: SetProbability_def keyOf_def height_def)
  show "\<forall>i<length (next list). \<forall>r\<in>set (Head # map Elem c). NextAt ?l r i = NextAt list r i"
    using obs_eq(1)[of ?l list] by (simp add: SetProbability_def)
qed (simp_all add: SetProbability_def probabilityTable_length listInv_def)

lemma Set_inv:
  fixes list :: "('v, 'f::ord) SkipList"
  assumes inv: "listInv list c"
  shows "\<exists>r list' c'. Set list k v = Some (r, list') \<and> listInv list' c' \<and>
    maxLevel list' = maxLevel list \<and> length (next list') = length (next list)"
proof (cases "usable list")
  case False
  then show ?thesis using Set_not_usable[OF False, of k v] inv by (auto simp: listInv_def)
next
  case us: True
  obtain L H where LH: "c = L @ H" "\<forall>a\<in>set L. below list k a" "\<forall>a\<in>set H. \<not> below list k a"
    using sorted_parts[OF inv_sorted[OF inv], of k] by blast
  show ?thesis
  proof (cases "\<exists>a\<in>set c. keyOf list a = k")
    case True
    then obtain a where a: "a \<in> set c" "keyOf list a = k" by blast
    obtain H' where H: "H = a # H'"
      using key_in_parts[of list L H k a] inv_sorted[OF inv] LH a by auto
    have w: "listInv list (L @ a # H')" using inv LH H by simp
    let ?l1 = "list\<lparr>prevNodesCache := filled list L\<rparr>"
    have w1: "listInv ?l1 c" using inv filled_length[OF inv us] by (intro inv_cache) simp_all
    have "a < length (heap ?l1)" using inv_valid[OF inv a(1)] by simp
    from update_val_inv[OF w1 this, of v]
    have "listInv (list\<lparr>prevNodesCache := filled list L,
           heap := (heap list)[a := (heap list ! a)\<lparr>val := v\<rparr>]\<rparr>) c" by simp
    with Set_found_inv[OF w us LH(2) _ a(2), of v] LH(3) H show ?thesis by auto
  next
    case False
    then have nf: "\<forall>b\<in>set H. keyOf list b \<noteq> k" using LH by auto
    from Set_insert_inv[OF _ us LH(2,3) nf, of v] inv LH(1) show ?thesis by blast
  qed
qed

lemma Remove_inv:
  assumes inv: "listInv list c"
  shows "\<exists>r list' c'. Remove list k = Some (r, list') \<and> listInv list' c' \<and>
    maxLevel list' = maxLevel list \<and> length (next list') = length (next list)"
proof (cases "usable list")
  case False
  then show ?thesis using Remove_not_usable[OF False, of k] inv by (auto simp: listInv_def)
next
  case us: True
  obtain L H where LH: "c = L @ H" "\<forall>a\<in>set L. below list k a" "\<forall>a\<in>set H. \<not> below list k a"
    using sorted_parts[OF inv_sorted[OF inv], of k] by blast
  show ?thesis
  proof (cases "\<exists>a\<in>set c. keyOf list a = k")
    case True
    then obtain a where a: "a \<in> set c" "keyOf list a = k" by blast
    obtain H' where H: "H = a # H'"
      using key_in_parts[of list L H k a] inv_sorted[OF inv] LH a by auto
    have w: "listInv list (L @ a # H')" using inv LH H by simp
    from Remove_found_inv[OF w us LH(2) _ a(2)] LH(3) H show ?thesis by blast
  next
    case False
    then have nf: "\<forall>b\<in>set H. keyOf list b \<noteq> k" using LH by auto
    have w: "listInv list (L @ H)" using inv LH by simp
    have "listInv (list\<lparr>prevNodesCache := filled list L\<rparr>) c"
      using inv filled_length[OF inv us] by (intro inv_cache) simp_all
    with Remove_absent_inv[OF w us LH(2,3) nf] show ?thesis by auto
  qed
qed

lemma Get_unchanged: "Get list k = Some (r, list') \<Longrightarrow> list' = list"
  by (auto simp: Get_def split: option.splits sum.splits)

lemma Get_returns:
  assumes inv: "listInv list c"
  shows "\<exists>r. Get list k = Some (r, list)"
proof (cases "usable list")
  case False
  then show ?thesis using Get_not_usable[OF False, of k] inv by (auto simp: listInv_def)
next
  case us: True
  obtain L H where LH: "c = L @ H" "\<forall>a\<in>set L. below list k a" "\<forall>a\<in>set H. \<not> below list k a"
    using sorted_parts[OF inv_sorted[OF inv], of k] by blast
  have w: "listInv list (L @ H)" using inv LH by simp
  from Get_inv[OF w us LH(2,3)] show ?thesis by blast
qed

lemma after_inv:
  fixes list :: "('v, 'f::ord) SkipList"
  assumes inv: "listInv list c"
  shows "\<exists>list' c'. after pow list call = Some list' \<and> listInv list' c' \<and>
    maxLevel list' = maxLevel list \<and> length (next list') = length (next list)"
proof (cases call)
  case (CallSet k v)
  with Set_inv[OF inv, of k v] show ?thesis by auto
next
  case (CallGet k)
  with Get_returns[OF inv, of k] inv show ?thesis by auto
next
  case (CallRemove k)
  with Remove_inv[OF inv, of k] show ?thesis by auto
next
  case (CallSetProbability p)
  with SetProbability_inv[OF inv, of pow p] show ?thesis
    by (auto simp: SetProbability_def)
qed

lemma run_inv:
  fixes list :: "('v, 'f::ord) SkipList"
  shows "listInv list c \<Longrightarrow> \<exists>list' c'. run pow list calls = Some list' \<and> listInv list' c' \<and>
    maxLevel list' = maxLevel list \<and> length (next list') = length (next list)"
proof (induction calls arbitrary: list c)
  case Nil
  then show ?case by auto
next
  case (Cons call calls)
  from after_inv[OF Cons.prems, of pow call] obtain l1 c1 where
    1: "after pow list call = Some l1" "listInv l1 c1" "maxLevel l1 = maxLevel list"
      "length (next l1) = length (next list)" by blast
  from Cons.IH[OF 1(2)] 1 show ?case by auto
qed

lemma reachable_inv:
  fixes l0 :: "('v, 'f::ord) SkipList"
  assumes "NewWithMaxLevel pow p rs n = Inr l0"
  shows "\<exists>list c. run pow l0 calls = Some list \<and> listInv list c \<and> maxLevel list = n \<and>
    length (next list) = 18"
proof -
  have "length (next l0) = 18"
    using assms by (auto simp: NewWithMaxLevel_def DefaultMaxLevel_def split: if_splits)
  with run_inv[OF NewWithMaxLevel_inv(1)[OF assms], of pow calls] NewWithMaxLevel_inv(2)[OF assms]
  show ?thesis by auto
qed

subsection \<open>What the calls return on a usable list\<close>

lemma key_unique:
  assumes "sorted_wrt (klt list) c" "a \<in> set c" "b \<in> set c" "keyOf list a = keyOf list b"
  shows "a = b"
  using assms
proof (induction c)
  case Nil
  then show ?case by simp
next
  case (Cons x xs)
  then show ?case by (auto simp: Compare_eq_0)
qed

lemma find_key:
  assumes "sorted_wrt (klt list) c" "a \<in> set c" "keyOf list a = k"
  shows "find (\<lambda>b. keyOf list b = k) c = Some a"
proof (cases "find (\<lambda>b. keyOf list b = k) c")
  case None
  with assms show ?thesis by (auto simp: find_None_iff)
next
  case (Some b)
  then have "b \<in> set c" "keyOf list b = k"
    by (auto simp: find_Some_iff in_set_conv_nth)
  with key_unique[OF assms(1,2) this(1)] assms(3) Some show ?thesis by simp
qed

lemma find_absent: "\<forall>a\<in>set c. keyOf list a \<noteq> k \<Longrightarrow> find (\<lambda>b. keyOf list b = k) c = None"
  by (simp add: find_None_iff)

lemma Get_correct:
  assumes inv: "listInv list c" and us: "usable list"
  shows "Get list k = Some (Inr (find (\<lambda>a. keyOf list a = k) c), list)"
proof -
  obtain L H where LH: "c = L @ H" "\<forall>a\<in>set L. below list k a" "\<forall>a\<in>set H. \<not> below list k a"
    using sorted_parts[OF inv_sorted[OF inv], of k] by blast
  have w: "listInv list (L @ H)" using inv LH by simp
  have g: "Get list k = Some (Inr (case H of [] \<Rightarrow> None
      | h # _ \<Rightarrow> if keyOf list h = k then Some h else None), list)"
    by (rule Get_inv[OF w us LH(2,3)])
  show ?thesis
  proof (cases "\<exists>a\<in>set c. keyOf list a = k")
    case True
    then obtain a where a: "a \<in> set c" "keyOf list a = k" by blast
    obtain H' where H: "H = a # H'"
      using key_in_parts[of list L H k a] inv_sorted[OF inv] LH a by auto
    from find_key[OF inv_sorted[OF inv] a] g H a show ?thesis by simp
  next
    case False
    then have n: "\<forall>a\<in>set c. keyOf list a \<noteq> k" by blast
    then have "(case H of [] \<Rightarrow> None | h # _ \<Rightarrow> if keyOf list h = k then Some h else None) = None"
      using LH(1) by (cases H) auto
    with find_absent[OF n] g show ?thesis by simp
  qed
qed

lemma usable_cache_heap [simp]:
  "usable (list\<lparr>prevNodesCache := pc, heap := h\<rparr>) = usable list"
  by (simp add: usable_def)

lemma Set_spec:
  fixes list :: "('v, 'f::ord) SkipList"
  assumes inv: "listInv list c" and us: "usable list"
  shows "\<exists>a list' c'. Set list k v = Some (Inr a, list') \<and> listInv list' c' \<and> usable list' \<and>
    a \<in> set c' \<and> keyOf list' a = k \<and> val (heap list' ! a) = v"
proof -
  obtain L H where LH: "c = L @ H" "\<forall>a\<in>set L. below list k a" "\<forall>a\<in>set H. \<not> below list k a"
    using sorted_parts[OF inv_sorted[OF inv], of k] by blast
  show ?thesis
  proof (cases "\<exists>a\<in>set c. keyOf list a = k")
    case True
    then obtain a where a: "a \<in> set c" "keyOf list a = k" by blast
    obtain H' where H: "H = a # H'"
      using key_in_parts[of list L H k a] inv_sorted[OF inv] LH a by auto
    have w: "listInv list (L @ a # H')" using inv LH H by simp
    let ?l1 = "list\<lparr>prevNodesCache := filled list L\<rparr>"
    let ?l2 = "list\<lparr>prevNodesCache := filled list L,
           heap := (heap list)[a := (heap list ! a)\<lparr>val := v\<rparr>]\<rparr>"
    have w1: "listInv ?l1 c" using inv filled_length[OF inv us] by (intro inv_cache) simp_all
    have al: "a < length (heap list)" using inv_valid[OF inv a(1)] by simp
    from update_val_inv[OF w1, of a v] al have w2: "listInv ?l2 c" by simp
    have s: "Set list k v = Some (Inr a, ?l2)"
      using Set_found_inv[OF w us LH(2) _ a(2), of v] LH(3) H by simp
    have "keyOf ?l2 a = k" "val (heap ?l2 ! a) = v"
      using al a(2) by (simp_all add: keyOf_def)
    with s w2 us a(1) show ?thesis by (intro exI[of _ a] exI[of _ ?l2] exI[of _ c]) simp
  next
    case False
    then have nf: "\<forall>b\<in>set H. keyOf list b \<noteq> k" using LH by auto
    have w: "listInv list (L @ H)" using inv LH by simp
    from Set_insert_inv[OF w us LH(2,3) nf, of v] obtain list' where
      l: "Set list k v = Some (Inr (length (heap list)), list')"
        "listInv list' (L @ length (heap list) # H)"
        "maxLevel list' = maxLevel list" "length (next list') = length (next list)"
        "keyOf list' (length (heap list)) = k" "val (heap list' ! length (heap list)) = v"
      by blast
    have "usable list'" using us l(3,4) by (simp add: usable_def)
    with l show ?thesis
      by (intro exI[of _ "length (heap list)"] exI[of _ list']
          exI[of _ "L @ length (heap list) # H"]) simp
  qed
qed

lemma Remove_spec:
  assumes inv: "listInv list c" and us: "usable list"
  shows "\<exists>list'. Remove list k = Some (Inr (find (\<lambda>a. keyOf list a = k) c), list') \<and>
    listInv list' (filter (\<lambda>a. keyOf list a \<noteq> k) c) \<and> usable list' \<and>
    (\<forall>b. keyOf list' b = keyOf list b) \<and>
    (find (\<lambda>a. keyOf list a = k) c = None \<longrightarrow>
       list' = list\<lparr>prevNodesCache := prevNodesCache list'\<rparr>)"
proof -
  obtain L H where LH: "c = L @ H" "\<forall>a\<in>set L. below list k a" "\<forall>a\<in>set H. \<not> below list k a"
    using sorted_parts[OF inv_sorted[OF inv], of k] by blast
  show ?thesis
  proof (cases "\<exists>a\<in>set c. keyOf list a = k")
    case True
    then obtain a where a: "a \<in> set c" "keyOf list a = k" by blast
    obtain H' where H: "H = a # H'"
      using key_in_parts[of list L H k a] inv_sorted[OF inv] LH a by auto
    have w: "listInv list (L @ a # H')" using inv LH H by simp
    from Remove_found_inv[OF w us LH(2) _ a(2)] LH(3) H obtain list' where
      l: "Remove list k = Some (Inr (Some a), list')" "listInv list' (L @ H')"
        "maxLevel list' = maxLevel list" "length (next list') = length (next list)"
        "\<forall>b. keyOf list' b = keyOf list b"
      by blast
    have u: "usable list'" using us l(3,4) by (simp add: usable_def)
    have "\<forall>b\<in>set (L @ H'). keyOf list b \<noteq> k"
    proof
      fix b assume b: "b \<in> set (L @ H')"
      show "keyOf list b \<noteq> k"
      proof
        assume "keyOf list b = k"
        with key_unique[OF inv_sorted[OF inv] a(1), of b] b a(2) LH(1) H have "a = b" by auto
        moreover have "distinct (L @ a # H')" using sorted_distinct[OF inv_sorted[OF w]] .
        ultimately show False using b by auto
      qed
    qed
    then have "filter (\<lambda>a. keyOf list a \<noteq> k) c = L @ H'"
      using LH(1) H a(2) by (simp add: filter_id_conv)
    with l u find_key[OF inv_sorted[OF inv] a] show ?thesis
      by (intro exI[of _ list']) simp
  next
    case False
    then have n: "\<forall>a\<in>set c. keyOf list a \<noteq> k" by blast
    then have nf: "\<forall>b\<in>set H. keyOf list b \<noteq> k" using LH by auto
    have w: "listInv list (L @ H)" using inv LH by simp
    let ?l1 = "list\<lparr>prevNodesCache := filled list L\<rparr>"
    have w1: "listInv ?l1 c" using inv filled_length[OF inv us] by (intro inv_cache) simp_all
    have f: "filter (\<lambda>a. keyOf list a \<noteq> k) c = c" using n by (simp add: filter_id_conv)
    from Remove_absent_inv[OF w us LH(2,3) nf] find_absent[OF n] w1 f us show ?thesis
      by (intro exI[of _ ?l1]) simp
  qed
qed

lemma find_filter_other:
  "find (\<lambda>b. keyOf list' b = k) (filter (\<lambda>a. keyOf list a \<noteq> k) c) = None"
  if "\<forall>b. keyOf list' b = keyOf list b"
  using that by (simp add: find_None_iff)

subsection \<open>Lists reached from the constructor\<close>

lemma reachable_usable:
  fixes l0 :: "('v, 'f::ord) SkipList"
  assumes "NewWithMaxLevel pow p rs n = Inr l0" "run pow l0 calls = Some list"
  shows "\<exists>c. listInv list c \<and> elements list = Some (Inr c) \<and> maxLevel list = n \<and>
    length (next list) = 18 \<and> (usable list \<longleftrightarrow> n \<le> 18)"
proof -
  from reachable_inv[OF assms(1), of calls] assms(2) obtain c where
    c: "listInv list c" "maxLevel list = n" "length (next list) = 18" by auto
  from c elements_inv[OF c(1)] show ?thesis by (auto simp: usable_def)
qed

lemma Compare_lexord:
  "Compare a b < 0 \<longleftrightarrow> (a, b) \<in> lexord {(x, y). unat x < unat y}"
  by (induction a b rule: Compare.induct)
    (auto simp: word_less_nat_alt dest: unsigned_word_eqI)

lemma filter_eq_single: "distinct c \<Longrightarrow> a \<in> set c \<Longrightarrow> filter (\<lambda>b. b = a) c = [a]"
proof (induction c)
  case Nil
  then show ?case by simp
next
  case (Cons x xs)
  show ?case
  proof (cases "x = a")
    case True
    with Cons.prems have "a \<notin> set xs" by simp
    then have "filter (\<lambda>b. b = a) xs = []" by (auto simp: filter_empty_conv)
    with True show ?thesis by simp
  next
    case False
    with Cons show ?thesis by simp
  qed
qed

lemma filter_key_single:
  assumes "sorted_wrt (klt list) c" "a \<in> set c" "keyOf list a = k"
  shows "filter (\<lambda>b. keyOf list b = k) c = [a]"
proof -
  have d: "distinct c" by (rule sorted_distinct[OF assms(1)])
  have "filter (\<lambda>b. keyOf list b = k) c = filter (\<lambda>b. b = a) c"
  proof (rule filter_cong[OF refl])
    fix b assume b: "b \<in> set c"
    show "(keyOf list b = k) = (b = a)"
    proof
      assume "keyOf list b = k"
      then have "keyOf list a = keyOf list b" using assms(3) by simp
      from key_unique[OF assms(1,2) b this] show "b = a" by simp
    next
      assume "b = a"
      then show "keyOf list b = k" using assms(3) by simp
    qed
  qed
  also have "\<dots> = [a]" using d assms(2) by (rule filter_eq_single)
  finally show ?thesis .
qed

lemma probabilityTable_nth:
  "i < nat n \<Longrightarrow> probabilityTable pow p n ! i = pow p (int i)"
  by (simp add: probabilityTable_def)

lemma some_case:
  "(case x of None \<Rightarrow> False | Some y \<Rightarrow> P y) \<Longrightarrow> \<exists>y. x = Some y \<and> P y"
  by (cases x) auto

lemma exList_new: "NewWithMaxLevel exPow (1 / 3) exRand 4 = Inr exList"
  by (simp add: NewWithMaxLevel_def exList_def DefaultMaxLevel_def)

lemma level_chains_may_coincide:
  "\<exists>list. run exPow exList [CallSet [3] 1] = Some list \<and>
     levelChain list 0 = Some (Inr [0]) \<and> levelChain list 1 = Some (Inr [0])"
  by (rule some_case) code_simp

lemma Remove_writes_scratch_buffer:
  "\<exists>y. Remove exList [1] = Some y \<and> fst y = Inr None \<and>
     prevNodesCache (snd y) \<noteq> prevNodesCache exList"
  by (rule some_case) code_simp

lemma exCalls_run:
  "\<exists>list. run exPow exList exCalls = Some list \<and> length (next list) = 18 \<and>
     elements list = Some (Inr [1, 0]) \<and> levelChain list 0 = Some (Inr [1, 0]) \<and>
     levelChain list 1 = Some (Inr [0]) \<and> keyOf list 0 = [3] \<and> keyOf list 1 = [1] \<and>
     height list 0 = 3 \<and> height list 1 = 1 \<and> Length list = 2 \<and>
     next list = [Some 1, Some 0, Some 0] @ replicate 15 None \<and>
     heap list = [\<lparr>next = [None, None, None], key = [3], val = 1\<rparr>,
                  \<lparr>next = [Some 0], key = [1], val = 2\<rparr>]"
  by (rule some_case) code_simp

subsection \<open>The calls on lists built with a maximum level of at most 18\<close>

lemma Set_returns_le_18:
  fixes l0 :: "('v, 'f::ord) SkipList"
  assumes "NewWithMaxLevel pow p rs n = Inr l0" "n \<le> 18" "run pow l0 calls = Some list"
  shows "\<exists>a list'. Set list k v = Some (Inr a, list')"
proof -
  from reachable_usable[OF assms(1,3)] assms(2) obtain c where
    "listInv list c" "usable list" by auto
  from Set_spec[OF this, of k v] show ?thesis by blast
qed

lemma Get_finds_le_18:
  fixes l0 :: "('v, 'f::ord) SkipList"
  assumes "NewWithMaxLevel pow p rs n = Inr l0" "n \<le> 18" "run pow l0 calls = Some list"
  shows "\<exists>c. elements list = Some (Inr c) \<and>
    Get list k = Some (Inr (find (\<lambda>a. keyOf list a = k) c), list)"
proof -
  from reachable_usable[OF assms(1,3)] assms(2) obtain c where
    c: "listInv list c" "usable list" "elements list = Some (Inr c)" by auto
  from Get_correct[OF c(1,2), of k] c(3) show ?thesis by blast
qed

lemma Set_Get_le_18:
  fixes l0 :: "('v, 'f::ord) SkipList"
  assumes "NewWithMaxLevel pow p rs n = Inr l0" "n \<le> 18" "run pow l0 calls = Some list"
  shows "\<exists>a list'. Set list k v = Some (Inr a, list') \<and>
    Get list' k = Some (Inr (Some a), list') \<and> val (heap list' ! a) = v"
proof -
  from reachable_usable[OF assms(1,3)] assms(2) obtain c where
    c: "listInv list c" "usable list" by auto
  from Set_spec[OF c, of k v] obtain a list' c' where
    s: "Set list k v = Some (Inr a, list')" "listInv list' c'" "usable list'" "a \<in> set c'"
      "keyOf list' a = k" "val (heap list' ! a) = v" by blast
  from Get_correct[OF s(2,3), of k] find_key[OF inv_sorted[OF s(2)] s(4,5)]
  have "Get list' k = Some (Inr (Some a), list')" by simp
  with s(1,6) show ?thesis by blast
qed

lemma Remove_le_18:
  fixes l0 :: "('v, 'f::ord) SkipList"
  assumes "NewWithMaxLevel pow p rs n = Inr l0" "n \<le> 18" "run pow l0 calls = Some list"
  shows "\<exists>c list'. elements list = Some (Inr c) \<and>
    Remove list k = Some (Inr (find (\<lambda>a. keyOf list a = k) c), list') \<and>
    elements list' = Some (Inr (filter (\<lambda>a. keyOf list a \<noteq> k) c)) \<and>
    Length list' = int (length (filter (\<lambda>a. keyOf list a \<noteq> k) c)) \<and>
    Get list' k = Some (Inr None, list') \<and>
    (find (\<lambda>a. keyOf list a = k) c = None \<longrightarrow>
       list' = list\<lparr>prevNodesCache := prevNodesCache list'\<rparr>)"
proof -
  from reachable_usable[OF assms(1,3)] assms(2) obtain c where
    c: "listInv list c" "usable list" "elements list = Some (Inr c)" by auto
  from Remove_spec[OF c(1,2), of k] obtain list' where
    "Remove list k = Some (Inr (find (\<lambda>a. keyOf list a = k) c), list') \<and>
      listInv list' (filter (\<lambda>a. keyOf list a \<noteq> k) c) \<and> usable list' \<and>
      (\<forall>b. keyOf list' b = keyOf list b) \<and>
      (find (\<lambda>a. keyOf list a = k) c = None \<longrightarrow>
         list' = list\<lparr>prevNodesCache := prevNodesCache list'\<rparr>)" ..
  then have r: "Remove list k = Some (Inr (find (\<lambda>a. keyOf list a = k) c), list')"
      "listInv list' (filter (\<lambda>a. keyOf list a \<noteq> k) c)" "usable list'"
      "\<forall>b. keyOf list' b = keyOf list b"
      "find (\<lambda>a. keyOf list a = k) c = None \<longrightarrow>
         list' = list\<lparr>prevNodesCache := prevNodesCache list'\<rparr>" by simp_all
  have g: "Get list' k = Some (Inr None, list')"
    using Get_correct[OF r(2,3), of k] find_filter_other[OF r(4), of k c] by simp
  have "Length list' = int (length (filter (\<lambda>a. keyOf list a \<noteq> k) c))"
    using r(2) by (simp add: listInv_def)
  with c(3) r(1,5) g elements_inv[OF r(2)] show ?thesis
    by (intro exI[of _ c] exI[of _ list']) simp
qed

section \<open>The claims\<close>

text \<open>
  Claim C1. After \<open>NewWithMaxLevel(n)\<close> with \<open>1 \<le> n \<le> 64\<close> every \<open>Set\<close> completes without
  error. The code at \<open>n = 19\<close>: the constructor returns a list whose sentinel has 18 slots,
  and \<open>Set\<close> panics in the predecessor search, at \<open>list.next[18]\<close>, leaving the list as it
  was. (For \<open>n \<le> 18\<close> every \<open>Set\<close> returns an element, \<open>Set_returns_le_18\<close>, with a height
  between 1 and \<open>maxLevel\<close>, \<open>randLevel_inv\<close>.)
\<close>

theorem Set_panics_at_maxLevel_19:
  fixes pow :: "'f::ord \<Rightarrow> int \<Rightarrow> 'f" and v :: 'v
  shows "\<exists>l0 :: ('v, 'f) SkipList. NewWithMaxLevel pow p rs 19 = Inr l0 \<and>
    length (next l0) = 18 \<and> Set l0 k v = Some (Inl IndexOutOfRange, l0)"
proof -
  obtain l0 :: "('v, 'f) SkipList" where l0: "NewWithMaxLevel pow p rs 19 = Inr l0"
    by (simp add: NewWithMaxLevel_def)
  have "length (next l0) = 18" "maxLevel l0 = 19"
    using l0 by (auto simp: NewWithMaxLevel_def DefaultMaxLevel_def)
  then have "\<not> usable l0" "1 \<le> maxLevel l0" "length (next l0) = 18"
    by (simp_all add: usable_def)
  with Set_not_usable[of l0 k v] l0 show ?thesis by blast
qed

text \<open>
  Claim C2. For every \<open>n\<close> in \<open>[1, 64]\<close> the list \<open>NewWithMaxLevel(n)\<close> returns has a sentinel
  with exactly \<open>n\<close> slots, a scratch buffer of length \<open>n\<close> and a probability table of \<open>n\<close>
  entries. The code at \<open>n = 4\<close>: all three have \<open>DefaultMaxLevel = 18\<close> entries. (Entry \<open>i\<close> of
  the table is \<open>Pow(probability, i)\<close>, \<open>probabilityTable_nth\<close>.)
\<close>

theorem NewWithMaxLevel_4_has_18_slots:
  fixes pow :: "'f \<Rightarrow> int \<Rightarrow> 'f"
  shows "\<exists>l0 :: ('v, 'f) SkipList. NewWithMaxLevel pow p rs 4 = Inr l0 \<and> maxLevel l0 = 4 \<and>
    length (next l0) = 18 \<and> length (prevNodesCache l0) = 18 \<and> length (probTable l0) = 18"
  by (simp add: NewWithMaxLevel_def DefaultMaxLevel_def probabilityTable_length)

text \<open>
  Claim C3. In every reachable list, \<open>Get(k)\<close> returns the element with key \<open>k\<close> when there
  is one and absent otherwise. The code on the list \<open>NewWithMaxLevel(19)\<close> returns: \<open>Get\<close>
  panics at \<open>list.next[18]\<close> instead of returning absent. (For \<open>n \<le> 18\<close>, \<open>Get\<close> returns the
  element of the level-0 chain with key \<open>k\<close>, or nil when there is none, \<open>Get_finds_le_18\<close>.)
\<close>

theorem Get_panics_at_maxLevel_19:
  fixes pow :: "'f \<Rightarrow> int \<Rightarrow> 'f"
  shows "\<exists>l0 :: ('v, 'f) SkipList. NewWithMaxLevel pow p rs 19 = Inr l0 \<and>
    elements l0 = Some (Inr []) \<and> Get l0 k = Some (Inl IndexOutOfRange, l0)"
proof -
  obtain l0 :: "('v, 'f) SkipList" where l0: "NewWithMaxLevel pow p rs 19 = Inr l0"
    by (simp add: NewWithMaxLevel_def)
  have "length (next l0) = 18" "maxLevel l0 = 19"
    using l0 by (auto simp: NewWithMaxLevel_def DefaultMaxLevel_def)
  then have "\<not> usable l0" "1 \<le> maxLevel l0"
    by (simp_all add: usable_def)
  with Get_not_usable[of l0 k] l0 elements_inv[OF NewWithMaxLevel_inv(1)[OF l0]]
  show ?thesis by blast
qed

text \<open>
  Claim C4. In every reachable list, \<open>Set(k, v)\<close> followed by \<open>Get(k)\<close> returns an element
  with value \<open>v\<close>, and \<open>Remove(k)\<close> followed by \<open>Get(k)\<close> returns absent. The code on the
  list \<open>NewWithMaxLevel(19)\<close> returns: \<open>Set\<close>, \<open>Remove\<close> and \<open>Get\<close> all panic, and leave the
  list as it was. (For \<open>n \<le> 18\<close> both round trips hold, \<open>Set_Get_le_18\<close> and
  \<open>Remove_le_18\<close>.)
\<close>

theorem round_trip_panics_at_maxLevel_19:
  fixes pow :: "'f::ord \<Rightarrow> int \<Rightarrow> 'f" and v :: 'v
  shows "\<exists>l0 :: ('v, 'f) SkipList. NewWithMaxLevel pow p rs 19 = Inr l0 \<and>
    Set l0 k v = Some (Inl IndexOutOfRange, l0) \<and>
    Remove l0 k = Some (Inl IndexOutOfRange, l0) \<and>
    Get l0 k = Some (Inl IndexOutOfRange, l0)"
proof -
  obtain l0 :: "('v, 'f) SkipList" where l0: "NewWithMaxLevel pow p rs 19 = Inr l0"
    by (simp add: NewWithMaxLevel_def)
  have "length (next l0) = 18" "maxLevel l0 = 19"
    using l0 by (auto simp: NewWithMaxLevel_def DefaultMaxLevel_def)
  then have "\<not> usable l0" "1 \<le> maxLevel l0"
    by (simp_all add: usable_def)
  with Set_not_usable[of l0 k v] Remove_not_usable[of l0 k] Get_not_usable[of l0 k] l0
  show ?thesis by blast
qed

text \<open>
  Claim C5. In a reachable list in which the key \<open>k\<close> is present, at the element \<open>a\<close> of the
  level-0 chain \<open>c\<close>, \<open>Set(k, v2)\<close> returns \<open>a\<close>. Afterwards the store is the old one with the
  value of \<open>a\<close> replaced by \<open>v2\<close>: the key, the height and the forward array of \<open>a\<close>, and
  every other element, are as before. The sentinel's forward array, the count and every
  chain are unchanged, and \<open>a\<close> is the one element of the chain with key \<open>k\<close>.
\<close>

theorem Set_present_key_updates_in_place:
  fixes l0 :: "('v, 'f::ord) SkipList"
  assumes "NewWithMaxLevel pow p rs n = Inr l0" "run pow l0 calls = Some list"
    "elements list = Some (Inr c)" "a \<in> set c" "keyOf list a = k"
  shows "\<exists>list'. Set list k v2 = Some (Inr a, list') \<and>
    heap list' = (heap list)[a := (heap list ! a)\<lparr>val := v2\<rparr>] \<and>
    val (heap list' ! a) = v2 \<and>
    next list' = next list \<and> Length list' = Length list \<and>
    elements list' = Some (Inr c) \<and>
    filter (\<lambda>b. keyOf list' b = k) c = [a] \<and>
    (\<forall>i<length (next list). levelChain list' i = levelChain list i)"
proof -
  from reachable_usable[OF assms(1,2)] assms(3) have inv: "listInv list c" by auto
  have us: "usable list" using inv assms(4) by (auto simp: listInv_def)
  obtain L H where LH: "c = L @ H" "\<forall>b\<in>set L. below list k b" "\<forall>b\<in>set H. \<not> below list k b"
    using sorted_parts[OF inv_sorted[OF inv], of k] by blast
  obtain H' where H: "H = a # H'"
    using key_in_parts[of list L H k a] inv_sorted[OF inv] LH assms(4,5) by auto
  have w: "listInv list (L @ a # H')" using inv LH H by simp
  let ?l1 = "list\<lparr>prevNodesCache := filled list L\<rparr>"
  let ?l2 = "list\<lparr>prevNodesCache := filled list L,
       heap := (heap list)[a := (heap list ! a)\<lparr>val := v2\<rparr>]\<rparr>"
  have w1: "listInv ?l1 c" using inv filled_length[OF inv us] by (intro inv_cache) simp_all
  have al: "a < length (heap list)" using inv_valid[OF inv assms(4)] by simp
  from update_val_inv[OF w1, of a v2] al have w2: "listInv ?l2 c" by simp
  have s: "Set list k v2 = Some (Inr a, ?l2)"
    using Set_found_inv[OF w us LH(2) _ assms(5), of v2] LH(3) H by simp
  have k2: "keyOf ?l2 = keyOf list" and h2: "height ?l2 = height list"
    using al by (auto simp: fun_eq_iff keyOf_def height_def nth_list_update)
  have f: "filter (\<lambda>b. keyOf ?l2 b = k) c = [a]"
    using filter_key_single[OF inv_sorted[OF inv] assms(4,5)] k2 by simp
  have lc: "\<forall>i<length (next list). levelChain ?l2 i = levelChain list i"
    using levelChain_inv[OF w2] levelChain_inv[OF inv] h2 by simp
  have "val (heap ?l2 ! a) = v2" using al by simp
  with s elements_inv[OF w2] f lc show ?thesis
    by (intro exI[of _ ?l2]) simp
qed

theorem Set_present_key_updates_in_place_witness:
  "NewWithMaxLevel exPow (1 / 3) exRand 4 = Inr exList \<and>
   (\<exists>list list'. run exPow exList exCalls = Some list \<and>
      elements list = Some (Inr [1, 0]) \<and> 0 \<in> set [1, 0 :: nat] \<and> keyOf list 0 = [3] \<and>
      Set list [3] 9 = Some (Inr 0, list') \<and>
      heap list' = (heap list)[0 := (heap list ! 0)\<lparr>val := 9\<rparr>] \<and>
      val (heap list' ! 0) = 9 \<and>
      next list' = next list \<and> Length list' = Length list \<and>
      elements list' = Some (Inr [1, 0]) \<and>
      filter (\<lambda>b. keyOf list' b = [3]) [1, 0] = [0] \<and>
      levelChain list' 1 = levelChain list 1)"
proof -
  from exCalls_run obtain list where l: "run exPow exList exCalls = Some list"
    "length (next list) = 18" "elements list = Some (Inr [1, 0])" "keyOf list 0 = [3]"
    by blast
  have m: "0 \<in> set [1, 0 :: nat]" by simp
  from Set_present_key_updates_in_place[OF exList_new l(1,3) m l(4), of 9] l(2)
  obtain list' where "Set list [3] 9 = Some (Inr 0, list') \<and>
    heap list' = (heap list)[0 := (heap list ! 0)\<lparr>val := 9\<rparr>] \<and>
    val (heap list' ! 0) = 9 \<and>
    next list' = next list \<and> Length list' = Length list \<and>
    elements list' = Some (Inr [1, 0]) \<and>
    filter (\<lambda>b. keyOf list' b = [3]) [1, 0] = [0] \<and>
    levelChain list' 1 = levelChain list 1" by auto
  with exList_new l m show ?thesis by blast
qed

text \<open>
  Claim C6. After every sequence of calls on a newly constructed list, the calls have all
  returned or panicked (none runs forever), and walking the level-0 chain from the sentinel
  (\<open>Front\<close>, then \<open>Next\<close> until nil) yields elements whose keys are strictly ascending for
  \<open>bytes.Compare\<close>, that is in the lexicographic order of their unsigned bytes; no key
  occurs twice. The sequences range over \<open>Set\<close>, \<open>Get\<close>, \<open>Remove\<close> and \<open>SetProbability\<close>.
\<close>

theorem level0_keys_strictly_ascending:
  fixes l0 :: "('v, 'f::ord) SkipList"
  assumes "NewWithMaxLevel pow p rs n = Inr l0"
  shows "\<exists>list c. run pow l0 calls = Some list \<and> elements list = Some (Inr c) \<and>
    sorted_wrt (\<lambda>a b. Compare (keyOf list a) (keyOf list b) < 0) c \<and>
    sorted_wrt (\<lambda>a b. (keyOf list a, keyOf list b) \<in> lexord {(x, y). unat x < unat y}) c \<and>
    distinct (map (keyOf list) c)"
proof -
  from reachable_inv[OF assms, of calls] obtain list c where
    l: "run pow l0 calls = Some list" "listInv list c" by blast
  have s: "sorted_wrt (klt list) c" by (rule inv_sorted[OF l(2)])
  then have s': "sorted_wrt (\<lambda>a b. (keyOf list a, keyOf list b) \<in>
      lexord {(x, y). unat x < unat y}) c"
    by (simp add: Compare_lexord)
  have "distinct (map (keyOf list) c)"
    unfolding distinct_map
  proof
    show "distinct c" by (rule sorted_distinct[OF s])
    show "inj_on (keyOf list) (set c)"
      using key_unique[OF s] by (auto simp: inj_on_def)
  qed
  with l(1) elements_inv[OF l(2)] s s' show ?thesis by blast
qed

theorem level0_keys_strictly_ascending_witness:
  "NewWithMaxLevel exPow (1 / 3) exRand 4 = Inr exList \<and>
   (\<exists>list. run exPow exList exCalls = Some list \<and> elements list = Some (Inr [1, 0]) \<and>
      keyOf list 1 = [1] \<and> keyOf list 0 = [3] \<and>
      sorted_wrt (\<lambda>a b. Compare (keyOf list a) (keyOf list b) < 0) [1, 0] \<and>
      sorted_wrt (\<lambda>a b. (keyOf list a, keyOf list b) \<in> lexord {(x, y). unat x < unat y})
        [1, 0] \<and>
      distinct (map (keyOf list) [1, 0]))"
proof -
  from exCalls_run obtain list where l: "run exPow exList exCalls = Some list"
    "elements list = Some (Inr [1, 0])" "keyOf list 1 = [1]" "keyOf list 0 = [3]"
    by blast
  from level0_keys_strictly_ascending[OF exList_new, of exCalls] l(1,2)
  have "sorted_wrt (\<lambda>a b. Compare (keyOf list a) (keyOf list b) < 0) [1, 0] \<and>
      sorted_wrt (\<lambda>a b. (keyOf list a, keyOf list b) \<in> lexord {(x, y). unat x < unat y})
        [1, 0] \<and>
      distinct (map (keyOf list) [1, 0])" by auto
  with exList_new l show ?thesis by blast
qed

text \<open>
  Claim C7. After every sequence of calls on a newly constructed list, \<open>Length\<close> is the
  number of elements met by walking the level-0 chain from the sentinel.
\<close>

theorem Length_counts_level0_chain:
  fixes l0 :: "('v, 'f::ord) SkipList"
  assumes "NewWithMaxLevel pow p rs n = Inr l0"
  shows "\<exists>list c. run pow l0 calls = Some list \<and> elements list = Some (Inr c) \<and>
    Length list = int (length c)"
proof -
  from reachable_inv[OF assms, of calls] obtain list c where
    l: "run pow l0 calls = Some list" "listInv list c" by blast
  have "Length list = int (length c)" using l(2) by (simp add: listInv_def)
  with l(1) elements_inv[OF l(2)] show ?thesis by blast
qed

theorem Length_counts_level0_chain_witness:
  "NewWithMaxLevel exPow (1 / 3) exRand 4 = Inr exList \<and>
   (\<exists>list. run exPow exList exCalls = Some list \<and> elements list = Some (Inr [1, 0]) \<and>
      Length list = 2)"
proof -
  from exCalls_run obtain list where l: "run exPow exList exCalls = Some list"
    "elements list = Some (Inr [1, 0])" by blast
  from Length_counts_level0_chain[OF exList_new, of exCalls] l
  have "Length list = 2" by auto
  with exList_new l show ?thesis by blast
qed



text \<open>
  Claim C9. \<open>Remove(k)\<close> returns the element with key \<open>k\<close>, unlinked at every level and
  with the count decremented, when there is one; otherwise it returns absent and leaves
  every chain and the count unchanged. The code on the list \<open>NewWithMaxLevel(19)\<close> returns,
  where no element has any key: \<open>Remove\<close> panics at \<open>list.next[18]\<close> instead of returning
  absent. (For \<open>n \<le> 18\<close>, \<open>Remove_le_18\<close>: \<open>Remove\<close> returns the element of the level-0 chain
  with key \<open>k\<close>, the chain afterwards is the old one without it and \<open>Length\<close> is its length;
  when the key is absent the result is nil and the list differs in the scratch buffer at
  most.)
\<close>

theorem Remove_panics_at_maxLevel_19:
  fixes pow :: "'f \<Rightarrow> int \<Rightarrow> 'f"
  shows "\<exists>l0 :: ('v, 'f) SkipList. NewWithMaxLevel pow p rs 19 = Inr l0 \<and>
    elements l0 = Some (Inr []) \<and> Remove l0 k = Some (Inl IndexOutOfRange, l0)"
proof -
  obtain l0 :: "('v, 'f) SkipList" where l0: "NewWithMaxLevel pow p rs 19 = Inr l0"
    by (simp add: NewWithMaxLevel_def)
  have "length (next l0) = 18" "maxLevel l0 = 19"
    using l0 by (auto simp: NewWithMaxLevel_def DefaultMaxLevel_def)
  then have "\<not> usable l0" "1 \<le> maxLevel l0"
    by (simp_all add: usable_def)
  with Remove_not_usable[of l0 k] l0 elements_inv[OF NewWithMaxLevel_inv(1)[OF l0]]
  show ?thesis by blast
qed

text \<open>
  Claim C10. In every reachable list, \<open>Get(k)\<close> returns or panics (it does not run
  forever) and leaves the whole list as it was: the forward arrays of the sentinel and of
  every element, the count, the probability and its table, the random source and the
  scratch buffer. (\<open>Remove\<close> writes the scratch buffer even when it finds nothing,
  \<open>Remove_writes_scratch_buffer\<close>.)
\<close>

theorem Get_leaves_list_unchanged:
  fixes l0 :: "('v, 'f::ord) SkipList"
  assumes "NewWithMaxLevel pow p rs n = Inr l0" "run pow l0 calls = Some list"
  shows "\<exists>r. Get list k = Some (r, list)"
proof -
  from reachable_usable[OF assms] obtain c where "listInv list c" by blast
  then show ?thesis by (rule Get_returns)
qed

theorem Get_leaves_list_unchanged_witness:
  "NewWithMaxLevel exPow (1 / 3) exRand 4 = Inr exList \<and>
   (\<exists>list r. run exPow exList exCalls = Some list \<and> elements list = Some (Inr [1, 0]) \<and>
      Get list [3] = Some (r, list))"
proof -
  from exCalls_run obtain list where l: "run exPow exList exCalls = Some list"
    "elements list = Some (Inr [1, 0])" by blast
  from Get_leaves_list_unchanged[OF exList_new l(1), of "[3]"] exList_new l
  show ?thesis by blast
qed

end
